theory Spec2Isabelle
  imports Main "HOL-Library.Word" "HOL-Library.Sublist"
begin

unbundle bit_operations_syntax

section \<open>Data model\<close>

text \<open>
  Modelled from the spec: the struct \<open>db.Oplog\<close> (package common/db) is declared outside
  the source at hand. The record has the fields the spec lists for a source entry:
  \<open>ts\<close> (64-bit hybrid timestamp), \<open>op\<close>, \<open>ns\<close>, \<open>o\<close> (payload) and \<open>o2\<close> (optional
  update selector). Documents are opaque, so their type is a parameter.
\<close>

record 'doc Oplog =
  Timestamp :: "64 word"
  Operation :: string
  Namespace :: string
  Object :: 'doc
  Query :: "'doc option"

text \<open>
  Modelled from the spec: \<open>db.ApplyOpsResponse\<close>, the destination's answer
  \<open>{ ok: boolean, errmsg: optional string }\<close>; \<open>Run\<close> reads \<open>res.Ok\<close> and \<open>res.ErrMsg\<close>.
\<close>

record ApplyOpsResponse =
  Ok :: bool
  ErrMsg :: string

text \<open>
  Modelled from the spec: the struct \<open>SourceOptions\<close> is declared outside the source at
  hand. \<open>Run\<close> and \<open>buildTailingCursor\<close> read two of its fields: the oplog namespace and
  the look-back window in seconds, an integer taken as 64 bits wide and held as a word
  (\<open>sint\<close> reads it). The field \<open>From\<close> is only logged.
\<close>

record SourceOptions =
  OplogNS :: string
  Seconds :: "64 word"

text \<open>
  What \<open>toSession.Run(bson.M{"applyOps": opsToApply}, res)\<close> gives back: a transport
  error (\<open>err != nil\<close>), or \<open>nil\<close> with the response decoded into \<open>res\<close>.
\<close>

datatype run_reply = TransportFailure string | Reply ApplyOpsResponse

text \<open>
  The errors \<open>Run\<close> returns, one constructor per \<open>return\<close> statement that builds one;
  \<open>error_message\<close> is the text \<open>fmt.Errorf\<close> gives each.
\<close>

datatype error =
    NamespaceError string
  | NoCollection
  | DestConnectError string
  | SourceConnectError string
  | ApplyTransportError string
  | ApplyServerError string

fun error_message :: "error \<Rightarrow> string" where
  "error_message (NamespaceError m) = m"
| "error_message NoCollection = ''the oplog namespace must specify a collection''"
| "error_message (DestConnectError m) = ''error connecting to destination db: '' @ m"
| "error_message (SourceConnectError m) = ''error connecting to source db: '' @ m"
| "error_message (ApplyTransportError m) = ''error applying ops: '' @ m"
| "error_message (ApplyServerError m) = ''server gave error applying ops: '' @ m"

text \<open>
  The query \<open>buildTailingCursor\<close> builds:
  \<open>Find({"ts": {"$gte": MongoTimestamp(thresholdShifted)}}).LogReplay().Tail(600 * time.Second)\<close>.
\<close>

record tail_query =
  ts_gte :: "64 word"
  log_replay :: bool
  tail_timeout_seconds :: nat

text \<open>
  Everything \<open>Run\<close> does to the outside world, in the order it does it. An apply call
  is recorded when it is issued and again when it returns; the trigger names the branch
  of the \<open>select\<close> that issued it.
\<close>

datatype trigger = TimerTrigger | SizeTrigger

datatype 'doc effect =
    GetSessionTo
  | GetSessionFrom
  | OpenTail string string tail_query
  | ApplyCall trigger "'doc Oplog list"
  | ApplyReturn run_reply
  | CloseTail
  | CloseFrom
  | CloseTo

text \<open>
  The producer goroutine is either not started, about to call \<open>tail.Next\<close>, blocked in
  \<open>oplogChan <- *oplogEntry\<close> with the entry it holds, or has left its loop (with the
  value of \<open>tail.Err()\<close>).
\<close>

datatype 'doc producer_state =
    NotStarted
  | Reading
  | Sending "'doc Oplog"
  | Stopped "string option"

record 'doc state =
  tail_items :: "'doc Oplog list"
  tail_err :: "string option"
  producer :: "'doc producer_state"
  opCount :: int
  opsToApply :: "'doc Oplog list"
  effects :: "'doc effect list"

text \<open>
  \<open>Run\<close> has the result type \<open>error\<close>, where \<open>nil\<close> is \<open>None\<close>. A finite schedule
  that does not make \<open>Run\<close> return leaves it in its loop: \<open>Streaming\<close>. Both carry the
  state reached (for \<open>Returned\<close>, the locals as they are at the \<open>return\<close>).
\<close>

datatype 'doc outcome =
    Returned "error option" "'doc state"
  | Streaming "'doc state"

fun state_of :: "'doc outcome \<Rightarrow> 'doc state" where
  "state_of (Returned e s) = s"
| "state_of (Streaming s) = s"

text \<open>
  The three things that can happen while \<open>Run\<close> is in its loop: the goroutine runs one
  iteration of \<open>for tail.Next(oplogEntry)\<close> up to its send, the channel hand-off
  (\<open>case opEntry := <-oplogChan\<close> together with the goroutine's send and \<open>opCount++\<close>),
  and \<open>case <-timer.C\<close>. A schedule is the order in which they happen; an event that
  cannot happen in a state (a hand-off when the goroutine holds no entry, a goroutine
  step while it is blocked or gone) leaves the state as it is.

  The log lines are left out: they decide nothing, and the one index they compute,
  \<open>opsToApply[len(opsToApply)-1]\<close>, is taken of a buffer just tested to be non-empty.
  So are \<open>SetSocketTimeout\<close> and \<open>SetMode\<close>, which only configure the two sessions.
\<close>

datatype event = ProducerNext | Handoff | Tick

section \<open>buildTailingCursor\<close>

text \<open>
  \<open>time.Duration(sourceOptions.Seconds) * time.Second\<close> is a 64-bit product of
  nanoseconds and wraps; \<open>time.Now()\<close> is given in nanoseconds since the epoch;
  \<open>Unix()\<close> rounds down to whole seconds; \<open>uint64(thresholdAsUnix) << 32\<close> is a shift
  of the 64-bit word.
\<close>

definition secondsInPast :: "SourceOptions \<Rightarrow> 64 word" where
  "secondsInPast sourceOptions = Seconds sourceOptions * 1000000000"

definition thresholdAsUnix :: "int \<Rightarrow> SourceOptions \<Rightarrow> int" where
  "thresholdAsUnix now sourceOptions =
     (now + sint (- secondsInPast sourceOptions)) div 1000000000"

definition thresholdShifted :: "int \<Rightarrow> SourceOptions \<Rightarrow> 64 word" where
  "thresholdShifted now sourceOptions =
     push_bit 32 (word_of_int (thresholdAsUnix now sourceOptions) :: 64 word)"

definition buildTailingCursor :: "int \<Rightarrow> SourceOptions \<Rightarrow> tail_query" where
  "buildTailingCursor now sourceOptions =
     \<lparr>ts_gte = thresholdShifted now sourceOptions, log_replay = True,
      tail_timeout_seconds = 600\<rparr>"

text \<open>
  The meaning of the query on the source server: \<open>$gte\<close> on a timestamp compares the
  64-bit value, seconds first and counter second, which is the unsigned order on words.
\<close>

definition selects :: "tail_query \<Rightarrow> 'doc Oplog \<Rightarrow> bool" where
  "selects q e = (ts_gte q \<le> Timestamp e)"

section \<open>The loop of Run\<close>

definition maxSize :: nat where
  "maxSize = 10000"

fun apply_calls :: "'doc effect list \<Rightarrow> (trigger \<times> 'doc Oplog list) list" where
  "apply_calls [] = []"
| "apply_calls (ApplyCall t b # es) = (t, b) # apply_calls es"
| "apply_calls (e # es) = apply_calls es"

fun apply_returns :: "'doc effect list \<Rightarrow> run_reply list" where
  "apply_returns [] = []"
| "apply_returns (ApplyReturn r # es) = r # apply_returns es"
| "apply_returns (e # es) = apply_returns es"

text \<open>
  The destination answers the \<open>n\<close>-th apply call (counting from 0) for a batch; any one
  run of any destination is such a function.
\<close>

type_synonym 'doc destination = "nat \<Rightarrow> 'doc Oplog list \<Rightarrow> run_reply"

text \<open>
  The apply-and-check block, which the source has once in each branch of the \<open>select\<close>:
  call \<open>applyOps\<close>, return on \<open>err != nil\<close>, return on \<open>!res.Ok\<close>, else (after a log line)
  \<open>opsToApply = opsToApply[:0]\<close>.
\<close>

definition flush :: "'doc destination \<Rightarrow> trigger \<Rightarrow> 'doc state \<Rightarrow> 'doc outcome" where
  "flush dest trg s =
     (let reply = dest (length (apply_calls (effects s))) (opsToApply s);
          s1 = s\<lparr>effects := effects s @ [ApplyCall trg (opsToApply s), ApplyReturn reply]\<rparr>
      in case reply of
           TransportFailure m \<Rightarrow> Returned (Some (ApplyTransportError m)) s1
         | Reply res \<Rightarrow>
             if \<not> Ok res then Returned (Some (ApplyServerError (ErrMsg res))) s1
             else Streaming (s1\<lparr>opsToApply := []\<rparr>))"

text \<open>
  One iteration of the goroutine's loop: \<open>tail.Next\<close> fails and the goroutine leaves
  (keeping \<open>tail.Err()\<close>), or the entry is a no-op and is skipped, or the goroutine goes
  on to send it.
\<close>

definition producer_next :: "'doc state \<Rightarrow> 'doc state" where
  "producer_next s =
     (case producer s of
        Reading \<Rightarrow>
          (case tail_items s of
             [] \<Rightarrow> s\<lparr>producer := Stopped (tail_err s)\<rparr>
           | oplogEntry # rest \<Rightarrow>
               if Operation oplogEntry = ''n'' then s\<lparr>tail_items := rest\<rparr>
               else s\<lparr>tail_items := rest, producer := Sending oplogEntry\<rparr>)
      | _ \<Rightarrow> s)"

fun loop_step :: "'doc destination \<Rightarrow> event \<Rightarrow> 'doc state \<Rightarrow> 'doc outcome" where
  "loop_step dest Tick s =
     (if length (opsToApply s) = 0 then Streaming s
      else flush dest TimerTrigger s)"
| "loop_step dest Handoff s =
     (case producer s of
        Sending opEntry \<Rightarrow>
          (let s1 = s\<lparr>opsToApply := opsToApply s @ [opEntry], producer := Reading,
                      opCount := opCount s + 1\<rparr>
           in if length (opsToApply s1) \<ge> maxSize then flush dest SizeTrigger s1
              else Streaming s1)
      | _ \<Rightarrow> Streaming s)"
| "loop_step dest ProducerNext s = Streaming (producer_next s)"

fun run_loop :: "'doc destination \<Rightarrow> event list \<Rightarrow> 'doc state \<Rightarrow> 'doc outcome" where
  "run_loop dest [] s = Streaming s"
| "run_loop dest (ev # evs) s =
     (case loop_step dest ev s of
        Returned e s' \<Rightarrow> Returned e s'
      | Streaming s' \<Rightarrow> run_loop dest evs s')"

section \<open>Run\<close>

text \<open>
  What \<open>Run\<close> meets outside itself: \<open>util.SplitAndValidateNamespace\<close> (another package,
  taken as it comes), the two session providers (\<open>None\<close>: a session; \<open>Some m\<close>: the
  error \<open>m\<close>), the clock, the entries of the oplog collection in the order the source
  serves them, the read error the cursor ends with (if any), and the destination.
\<close>

record 'doc env =
  split_ns :: "string \<Rightarrow> string + (string \<times> string)"
  session_to :: "string option"
  session_from :: "string option"
  now_ns :: int
  source_log :: "'doc Oplog list"
  source_err :: "string option"
  dest :: "'doc destination"

definition before_loop :: "'doc effect list \<Rightarrow> 'doc state" where
  "before_loop effs =
     \<lparr>tail_items = [], tail_err = None, producer = NotStarted, opCount = 0,
      opsToApply = [], effects = effs\<rparr>"

definition cursor_items :: "'doc env \<Rightarrow> SourceOptions \<Rightarrow> 'doc Oplog list" where
  "cursor_items env opts =
     filter (selects (buildTailingCursor (now_ns env) opts)) (source_log env)"

definition loop_entry :: "'doc env \<Rightarrow> SourceOptions \<Rightarrow> string \<Rightarrow> string \<Rightarrow> 'doc state" where
  "loop_entry env opts oplogDB oplogColl =
     \<lparr>tail_items = cursor_items env opts, tail_err = source_err env, producer = Reading,
      opCount = 0, opsToApply = [],
      effects = [GetSessionTo, GetSessionFrom,
                 OpenTail oplogDB oplogColl (buildTailingCursor (now_ns env) opts)]\<rparr>"

text \<open>
  The deferred calls run when \<open>Run\<close> returns, last deferred first:
  \<open>tail.Close()\<close>, \<open>fromSession.Close()\<close>, \<open>toSession.Close()\<close>.
\<close>

definition Run :: "'doc env \<Rightarrow> SourceOptions \<Rightarrow> event list \<Rightarrow> 'doc outcome" where
  "Run env opts sched =
     (case split_ns env (OplogNS opts) of
        Inl err \<Rightarrow> Returned (Some (NamespaceError err)) (before_loop [])
      | Inr (oplogDB, oplogColl) \<Rightarrow>
          if oplogColl = [] then Returned (Some NoCollection) (before_loop [])
          else
            (case session_to env of
               Some err \<Rightarrow> Returned (Some (DestConnectError err)) (before_loop [GetSessionTo])
             | None \<Rightarrow>
                 (case session_from env of
                    Some err \<Rightarrow>
                      Returned (Some (SourceConnectError err))
                        (before_loop [GetSessionTo, GetSessionFrom, CloseTo])
                  | None \<Rightarrow>
                      (case run_loop (dest env) sched (loop_entry env opts oplogDB oplogColl) of
                         Returned e s \<Rightarrow>
                           Returned e (s\<lparr>effects := effects s @ [CloseTail, CloseFrom, CloseTo]\<rparr>)
                       | Streaming s \<Rightarrow> Streaming s))))"

section \<open>Notions for stating the properties\<close>

text \<open>
  A reply that makes \<open>Run\<close> return: \<open>err != nil\<close>, or \<open>!res.Ok\<close>; and the error
  \<open>Run\<close> builds from it.
\<close>

fun failed :: "run_reply \<Rightarrow> bool" where
  "failed (TransportFailure m) = True"
| "failed (Reply res) = (\<not> Ok res)"

fun apply_error :: "run_reply \<Rightarrow> error" where
  "apply_error (TransportFailure m) = ApplyTransportError m"
| "apply_error (Reply res) = ApplyServerError (ErrMsg res)"

text \<open>
  The text a failed reply carries: the transport error, or the response's \<open>errmsg\<close>.
\<close>

fun reply_text :: "run_reply \<Rightarrow> string" where
  "reply_text (TransportFailure m) = m"
| "reply_text (Reply res) = ErrMsg res"

text \<open>
  No apply call recorded so far has failed.
\<close>

definition clean :: "'doc effect list \<Rightarrow> bool" where
  "clean effs = list_all (\<lambda>r. \<not> failed r) (apply_returns effs)"

text \<open>
  The entries passed to the destination so far: the batches of the apply calls, in call
  order.
\<close>

definition delivered :: "'doc state \<Rightarrow> 'doc Oplog list" where
  "delivered s = concat (map snd (apply_calls (effects s)))"

text \<open>
  The entry the goroutine holds while blocked in its send, and the entries still to come
  from the goroutine: that entry, then what the cursor will serve with the no-ops left out.
\<close>

fun in_hand :: "'doc producer_state \<Rightarrow> 'doc Oplog list" where
  "in_hand (Sending e) = [e]"
| "in_hand p = []"

definition forwardable :: "'doc Oplog list \<Rightarrow> 'doc Oplog list" where
  "forwardable es = filter (\<lambda>e. Operation e \<noteq> ''n'') es"

definition upcoming :: "'doc state \<Rightarrow> 'doc Oplog list" where
  "upcoming s = in_hand (producer s) @ forwardable (tail_items s)"

text \<open>
  Every entry that has been or will be forwarded: applied, buffered, or still to come.
\<close>

definition accounted :: "'doc state \<Rightarrow> 'doc Oplog list" where
  "accounted s = delivered s @ opsToApply s @ upcoming s"

text \<open>
  The state after \<open>opsToApply = append(opsToApply, opEntry)\<close>, with the goroutine past its
  send.
\<close>

definition received :: "'doc Oplog \<Rightarrow> 'doc state \<Rightarrow> 'doc state" where
  "received x s =
     s\<lparr>opsToApply := opsToApply s @ [x], producer := Reading, opCount := opCount s + 1\<rparr>"

text \<open>
  The bounds on a batch, by the trigger that sent it.
\<close>

definition batch_ok :: "trigger \<times> 'doc Oplog list \<Rightarrow> bool" where
  "batch_ok c = (0 < length (snd c) \<and> length (snd c) \<le> maxSize \<and>
                 (fst c = SizeTrigger \<longrightarrow> length (snd c) = maxSize))"

definition sized :: "'doc effect list \<Rightarrow> bool" where
  "sized effs = list_all batch_ok (apply_calls effs)"

text \<open>
  The number of apply calls issued and not yet returned, after a sequence of effects; a
  sequence is sequential when that number is 0 at its end and 0 or 1 after each initial part.
\<close>

fun is_call :: "'doc effect \<Rightarrow> bool" where
  "is_call (ApplyCall t b) = True"
| "is_call e = False"

fun is_return :: "'doc effect \<Rightarrow> bool" where
  "is_return (ApplyReturn r) = True"
| "is_return e = False"

definition outstanding :: "'doc effect list \<Rightarrow> int" where
  "outstanding effs = int (length (filter is_call effs)) - int (length (filter is_return effs))"

definition sequential :: "'doc effect list \<Rightarrow> bool" where
  "sequential effs =
     (outstanding effs = 0 \<and>
      (\<forall>k. 0 \<le> outstanding (take k effs) \<and> outstanding (take k effs) \<le> 1))"

text \<open>
  The errors about the namespace, returned before anything else is done.
\<close>

fun is_configuration_error :: "error \<Rightarrow> bool" where
  "is_configuration_error (NamespaceError m) = True"
| "is_configuration_error NoCollection = True"
| "is_configuration_error e = False"

text \<open>
  What the deferred closes add when the loop returns.
\<close>

definition closing :: "'doc outcome \<Rightarrow> 'doc outcome" where
  "closing out =
     (case out of
        Returned e s \<Rightarrow> Returned e (s\<lparr>effects := effects s @ [CloseTail, CloseFrom, CloseTo]\<rparr>)
      | Streaming s \<Rightarrow> Streaming s)"

text \<open>
  Examples: entries at given seconds, a destination that accepts every batch and one that
  rejects every batch, an environment at second 1,700,000,100.5 with a given oplog, read
  error and destination, a look-back window of 60 seconds, and a schedule.
\<close>

definition example_entry :: "64 word \<Rightarrow> string \<Rightarrow> string Oplog" where
  "example_entry secs code =
     \<lparr>Timestamp = push_bit 32 secs, Operation = code, Namespace = ''shop.orders'',
      Object = ''{_id: 1}'', Query = None\<rparr>"

definition accepting :: "string destination" where
  "accepting n batch = Reply \<lparr>Ok = True, ErrMsg = []\<rparr>"

definition rejecting :: "string destination" where
  "rejecting n batch = Reply \<lparr>Ok = False, ErrMsg = ''duplicate key''\<rparr>"

definition example_env ::
  "string Oplog list \<Rightarrow> string option \<Rightarrow> string destination \<Rightarrow> string env" where
  "example_env entries err d =
     \<lparr>split_ns = (\<lambda>ns. Inr (''local'', ''oplog.rs'')), session_to = None, session_from = None,
      now_ns = 1700000100500000000, source_log = entries, source_err = err, dest = d\<rparr>"

definition example_opts :: SourceOptions where
  "example_opts = \<lparr>OplogNS = ''local.oplog.rs'', Seconds = 60\<rparr>"

definition example_log :: "string Oplog list" where
  "example_log =
     [example_entry 1700000000 ''i'', example_entry 1700000050 ''i'',
      example_entry 1700000051 ''u'', example_entry 1700000052 ''n'',
      example_entry 1700000053 ''d'']"

definition plain_log :: "string Oplog list" where
  "plain_log = [example_entry 1700000050 ''i'', example_entry 1700000051 ''u'']"

definition example_schedule :: "event list" where
  "example_schedule =
     [ProducerNext, Handoff, ProducerNext, Handoff, Tick, ProducerNext, ProducerNext, Handoff,
      Tick, Tick]"

text \<open>
  Example environments whose namespace cannot be used.
\<close>

definition no_collection_env :: "string env" where
  "no_collection_env =
     (example_env example_log None accepting)\<lparr>split_ns := (\<lambda>ns. Inr (ns, []))\<rparr>"

definition invalid_namespace_env :: "string env" where
  "invalid_namespace_env =
     (example_env example_log None accepting)
       \<lparr>split_ns := (\<lambda>ns. Inl (''namespace is not valid''))\<rparr>"

text \<open>
  A source that serves the same insert 10000 times, read and handed off one by one.
\<close>

definition full_log :: "string Oplog list" where
  "full_log = replicate maxSize (example_entry 1700000050 ''i'')"

definition fill_schedule :: "nat \<Rightarrow> event list" where
  "fill_schedule n = concat (replicate n [ProducerNext, Handoff])"

section \<open>Auxiliary lemmas\<close>

subsection \<open>The effect trace and the apply-and-check block\<close>

lemma apply_calls_append: "apply_calls (xs @ ys) = apply_calls xs @ apply_calls ys"
  by (induction xs rule: apply_calls.induct) simp_all

lemma apply_returns_append: "apply_returns (xs @ ys) = apply_returns xs @ apply_returns ys"
  by (induction xs rule: apply_returns.induct) simp_all

lemma flush_eq:
  "flush d t s =
     (let r = d (length (apply_calls (effects s))) (opsToApply s);
          s1 = s\<lparr>effects := effects s @ [ApplyCall t (opsToApply s), ApplyReturn r]\<rparr>
      in if failed r then Returned (Some (apply_error r)) s1
         else Streaming (s1\<lparr>opsToApply := []\<rparr>))"
  by (simp add: flush_def Let_def split: run_reply.split)

lemma flush_Streaming:
  assumes "flush d t s = Streaming s'"
  shows "s' = s\<lparr>effects := effects s @ [ApplyCall t (opsToApply s),
                    ApplyReturn (d (length (apply_calls (effects s))) (opsToApply s))],
                opsToApply := []\<rparr>"
    and "\<not> failed (d (length (apply_calls (effects s))) (opsToApply s))"
  using assms by (simp_all add: flush_eq Let_def split: if_splits)

lemma flush_Returned:
  assumes "flush d t s = Returned e s'"
  shows "s' = s\<lparr>effects := effects s @ [ApplyCall t (opsToApply s),
                    ApplyReturn (d (length (apply_calls (effects s))) (opsToApply s))]\<rparr>"
    and "failed (d (length (apply_calls (effects s))) (opsToApply s))"
    and "e = Some (apply_error (d (length (apply_calls (effects s))) (opsToApply s)))"
  using assms by (simp_all add: flush_eq Let_def split: if_splits)

lemma run_loop_append:
  "run_loop d (xs @ ys) s =
     (case run_loop d xs s of Returned e s' \<Rightarrow> Returned e s' | Streaming s' \<Rightarrow> run_loop d ys s')"
  by (induction xs arbitrary: s) (simp_all split: outcome.split)

subsection \<open>Every forwarded entry is accounted for\<close>

lemma producer_next_accounted: "accounted (producer_next s) = accounted s"
  by (simp add: producer_next_def accounted_def delivered_def upcoming_def forwardable_def
      split: producer_state.split list.split)

lemma step_Streaming_accounted:
  assumes "loop_step d ev s = Streaming s'"
  shows "accounted s' = accounted s"
proof (cases ev)
  case ProducerNext
  with assms show ?thesis by (auto simp: producer_next_accounted)
next
  case Tick
  show ?thesis
  proof (cases "opsToApply s = []")
    case True
    with assms Tick show ?thesis by simp
  next
    case False
    with assms Tick have "flush d TimerTrigger s = Streaming s'" by simp
    from flush_Streaming(1)[OF this] show ?thesis
      by (simp add: accounted_def delivered_def upcoming_def apply_calls_append)
  qed
next
  case Handoff
  show ?thesis
  proof (cases "producer s")
    case (Sending e)
    let ?s1 = "s\<lparr>opsToApply := opsToApply s @ [e], producer := Reading, opCount := opCount s + 1\<rparr>"
    have t1: "accounted ?s1 = accounted s"
      using Sending by (simp add: accounted_def delivered_def upcoming_def)
    show ?thesis
    proof (cases "maxSize \<le> length (opsToApply ?s1)")
      case True
      with assms Handoff Sending have "flush d SizeTrigger ?s1 = Streaming s'"
        by (simp add: Let_def)
      from flush_Streaming(1)[OF this] have "accounted s' = accounted ?s1"
        by (simp add: accounted_def delivered_def upcoming_def apply_calls_append)
      with t1 show ?thesis by simp
    next
      case False
      with assms Handoff Sending have "s' = ?s1" by (simp add: Let_def)
      with t1 show ?thesis by simp
    qed
  qed (use assms Handoff in auto)
qed

lemma step_Returned_accounted:
  assumes "loop_step d ev s = Returned e s'"
  shows "delivered s' @ upcoming s' = accounted s"
proof (cases ev)
  case ProducerNext
  with assms show ?thesis by simp
next
  case Tick
  with assms have "flush d TimerTrigger s = Returned e s'" by (simp split: if_splits)
  from flush_Returned(1)[OF this] show ?thesis
    by (simp add: accounted_def delivered_def upcoming_def apply_calls_append)
next
  case Handoff
  show ?thesis
  proof (cases "producer s")
    case (Sending x)
    let ?s1 = "s\<lparr>opsToApply := opsToApply s @ [x], producer := Reading, opCount := opCount s + 1\<rparr>"
    from assms Handoff Sending have "flush d SizeTrigger ?s1 = Returned e s'"
      by (simp add: Let_def split: if_splits)
    from flush_Returned(1)[OF this] show ?thesis using Sending
      by (simp add: accounted_def delivered_def upcoming_def apply_calls_append)
  qed (use assms Handoff in auto)
qed

lemma run_Streaming_accounted:
  "run_loop d evs s = Streaming s' \<Longrightarrow> accounted s' = accounted s"
proof (induction evs arbitrary: s)
  case Nil
  then show ?case by simp
next
  case (Cons ev evs)
  then show ?case
    by (auto split: outcome.splits dest: step_Streaming_accounted)
qed

lemma run_Returned_accounted:
  "run_loop d evs s = Returned e s' \<Longrightarrow> delivered s' @ upcoming s' = accounted s"
proof (induction evs arbitrary: s)
  case Nil
  then show ?case by simp
next
  case (Cons ev evs)
  then show ?case
    by (auto split: outcome.splits dest: step_Streaming_accounted step_Returned_accounted)
qed

subsection \<open>The ways one step can go\<close>

lemma loop_step_elim [consumes 1, case_names Idle Producer Append TimerFlush SizeFlush]:
  assumes "loop_step d ev s = out"
  obtains "out = Streaming s"
  | "out = Streaming (producer_next s)"
  | x where "producer s = Sending x" and "length (opsToApply s) + 1 < maxSize"
      and "out = Streaming (received x s)"
  | "opsToApply s \<noteq> []" and "out = flush d TimerTrigger s"
  | x where "producer s = Sending x" and "maxSize \<le> length (opsToApply s) + 1"
      and "out = flush d SizeTrigger (received x s)"
proof (cases ev)
  case ProducerNext
  with assms that(2) show ?thesis by simp
next
  case Tick
  with assms that(1,4) show ?thesis by (cases "opsToApply s = []") simp_all
next
  case Handoff
  show ?thesis
  proof (cases "producer s")
    case (Sending x)
    with assms Handoff that(3)[of x] that(5)[of x] show ?thesis
      by (cases "maxSize \<le> length (opsToApply s) + 1") (simp_all add: received_def Let_def)
  qed (use assms Handoff that(1) in simp_all)
qed

lemma flush_effects:
  "effects (state_of (flush d t s)) =
     effects s @ [ApplyCall t (opsToApply s),
                  ApplyReturn (d (length (apply_calls (effects s))) (opsToApply s))]"
  by (simp add: flush_eq Let_def)

lemma producer_next_effects [simp]: "effects (producer_next s) = effects s"
  by (simp add: producer_next_def split: producer_state.split list.split)

lemma producer_next_opsToApply [simp]: "opsToApply (producer_next s) = opsToApply s"
  by (simp add: producer_next_def split: producer_state.split list.split)

lemma received_simps [simp]:
  "effects (received x s) = effects s"
  "opsToApply (received x s) = opsToApply s @ [x]"
  by (simp_all add: received_def)

subsection \<open>Batch sizes\<close>

lemma sized_flush:
  assumes "sized (effects s)" and "opsToApply s \<noteq> []" and "length (opsToApply s) \<le> maxSize"
    and "t = SizeTrigger \<longrightarrow> length (opsToApply s) = maxSize"
  shows "sized (effects (state_of (flush d t s)))"
  using assms by (simp add: sized_def flush_effects apply_calls_append batch_ok_def)

lemma step_sized:
  assumes "sized (effects s)" and "length (opsToApply s) < maxSize"
  shows "sized (effects (state_of (loop_step d ev s)))"
    and "\<And>s'. loop_step d ev s = Streaming s' \<Longrightarrow> length (opsToApply s') < maxSize"
proof -
  obtain out where out: "loop_step d ev s = out" by simp
  have "sized (effects (state_of out)) \<and> (\<forall>s'. out = Streaming s' \<longrightarrow> length (opsToApply s') < maxSize)"
    using out
  proof (cases rule: loop_step_elim)
    case TimerFlush
    with assms sized_flush[of s TimerTrigger d] show ?thesis
      by (auto simp: flush_eq Let_def split: if_splits)
  next
    case (SizeFlush x)
    have "sized (effects (state_of (flush d SizeTrigger (received x s))))"
      using assms SizeFlush by (intro sized_flush) auto
    moreover have "0 < maxSize" by (simp add: maxSize_def)
    ultimately show ?thesis using SizeFlush
      by (auto simp: flush_eq Let_def split: if_splits)
  qed (use assms in auto)
  with out show "sized (effects (state_of (loop_step d ev s)))"
    and "\<And>s'. loop_step d ev s = Streaming s' \<Longrightarrow> length (opsToApply s') < maxSize"
    by auto
qed

lemma run_sized:
  "sized (effects s) \<Longrightarrow> length (opsToApply s) < maxSize \<Longrightarrow>
   sized (effects (state_of (run_loop d evs s)))"
proof (induction evs arbitrary: s)
  case Nil
  then show ?case by simp
next
  case (Cons ev evs)
  show ?case
  proof (cases "loop_step d ev s")
    case (Returned e s')
    with step_sized(1)[OF Cons.prems, of d ev] show ?thesis by simp
  next
    case (Streaming s')
    with step_sized[OF Cons.prems, of d ev] Cons.IH[of s'] show ?thesis by simp
  qed
qed

subsection \<open>Failed replies\<close>

lemma step_Streaming_clean:
  assumes "loop_step d ev s = Streaming s'" and "clean (effects s)"
  shows "clean (effects s')"
  using assms(1)
proof (cases rule: loop_step_elim)
  case TimerFlush
  with assms show ?thesis
    by (auto simp: flush_eq Let_def clean_def apply_returns_append split: if_splits)
next
  case (SizeFlush x)
  with assms show ?thesis
    by (auto simp: flush_eq Let_def clean_def apply_returns_append split: if_splits)
qed (use assms in auto)

lemma step_Returned_shape:
  assumes "loop_step d ev s = Returned e s'"
  shows "\<exists>t r. effects s' = effects s @ [ApplyCall t (opsToApply s'), ApplyReturn r] \<and>
           failed r \<and> e = Some (apply_error r) \<and> opsToApply s' \<noteq> []"
  using assms
proof (cases rule: loop_step_elim)
  case TimerFlush
  with assms show ?thesis
    by (auto simp: flush_eq Let_def split: if_splits)
next
  case (SizeFlush x)
  with assms show ?thesis
    by (auto simp: flush_eq Let_def split: if_splits)
qed simp_all

lemma run_Streaming_clean:
  "run_loop d evs s = Streaming s' \<Longrightarrow> clean (effects s) \<Longrightarrow> clean (effects s')"
proof (induction evs arbitrary: s)
  case Nil
  then show ?case by simp
next
  case (Cons ev evs)
  then show ?case
    by (auto split: outcome.splits dest: step_Streaming_clean)
qed

lemma run_Returned_shape:
  "run_loop d evs s = Returned e s' \<Longrightarrow> clean (effects s) \<Longrightarrow>
   \<exists>pre t r. effects s' = pre @ [ApplyCall t (opsToApply s'), ApplyReturn r] \<and> clean pre \<and>
     failed r \<and> e = Some (apply_error r) \<and> opsToApply s' \<noteq> []"
proof (induction evs arbitrary: s)
  case Nil
  then show ?case by simp
next
  case (Cons ev evs)
  show ?case
  proof (cases "loop_step d ev s")
    case (Returned e1 s1)
    with Cons.prems have "loop_step d ev s = Returned e s'" by simp
    from step_Returned_shape[OF this] Cons.prems(2) show ?thesis by blast
  next
    case (Streaming s1)
    with Cons.prems have "run_loop d evs s1 = Returned e s'" by simp
    moreover have "clean (effects s1)"
      using step_Streaming_clean[OF Streaming Cons.prems(2)] .
    ultimately show ?thesis by (rule Cons.IH)
  qed
qed

subsection \<open>Apply calls do not overlap\<close>

lemma outstanding_append: "outstanding (xs @ ys) = outstanding xs + outstanding ys"
  by (simp add: outstanding_def)

lemma sequential_pair:
  assumes "sequential effs"
  shows "sequential (effs @ [ApplyCall t b, ApplyReturn r])"
proof -
  have tot: "outstanding (effs @ [ApplyCall t b, ApplyReturn r]) = 0"
    using assms by (simp add: sequential_def outstanding_def)
  have pre: "0 \<le> outstanding (take k (effs @ [ApplyCall t b, ApplyReturn r])) \<and>
             outstanding (take k (effs @ [ApplyCall t b, ApplyReturn r])) \<le> 1" for k
  proof (cases "k \<le> length effs")
    case True
    with assms show ?thesis by (simp add: sequential_def)
  next
    case False
    then obtain j where j: "k - length effs = Suc j" by (cases "k - length effs") auto
    from False have "take k effs = effs" by simp
    with assms j show ?thesis
      by (cases j) (simp_all add: sequential_def outstanding_def)
  qed
  from tot pre show ?thesis unfolding sequential_def by blast
qed

lemma sequential_quiet:
  assumes "sequential effs" and "list_all (\<lambda>e. \<not> is_call e \<and> \<not> is_return e) extra"
  shows "sequential (effs @ extra)"
proof -
  have q: "outstanding (take j extra) = 0" for j
  proof -
    have "list_all (\<lambda>e. \<not> is_call e \<and> \<not> is_return e) (take j extra)"
      using assms(2) by (auto simp: list_all_iff dest: in_set_takeD)
    then have "filter is_call (take j extra) = [] \<and> filter is_return (take j extra) = []"
      by (auto simp: list_all_iff filter_empty_conv)
    then show ?thesis by (simp add: outstanding_def)
  qed
  from q[of "length extra"] have "outstanding extra = 0" by simp
  with assms(1) have tot: "outstanding (effs @ extra) = 0"
    by (simp add: sequential_def outstanding_append)
  have "0 \<le> outstanding (take k (effs @ extra)) \<and> outstanding (take k (effs @ extra)) \<le> 1" for k
    using assms(1) q[of "k - length effs"]
    by (cases "k \<le> length effs") (simp_all add: sequential_def outstanding_append)
  with tot show ?thesis unfolding sequential_def by blast
qed

lemma step_sequential:
  assumes "sequential (effects s)"
  shows "sequential (effects (state_of (loop_step d ev s)))"
proof -
  obtain out where out: "loop_step d ev s = out" by simp
  then have "sequential (effects (state_of out))"
  proof (cases rule: loop_step_elim)
    case TimerFlush
    with assms show ?thesis by (simp add: flush_effects sequential_pair)
  next
    case (SizeFlush x)
    with assms show ?thesis by (simp add: flush_effects sequential_pair)
  qed (use assms in simp_all)
  with out show ?thesis by simp
qed

lemma run_sequential:
  "sequential (effects s) \<Longrightarrow> sequential (effects (state_of (run_loop d evs s)))"
proof (induction evs arbitrary: s)
  case Nil
  then show ?case by simp
next
  case (Cons ev evs)
  show ?case
  proof (cases "loop_step d ev s")
    case (Returned e s')
    with step_sequential[OF Cons.prems, of d ev] show ?thesis by simp
  next
    case (Streaming s')
    with step_sequential[OF Cons.prems, of d ev] Cons.IH[of s'] show ?thesis by simp
  qed
qed

subsection \<open>The cursor only shrinks\<close>

lemma step_tail_items:
  "set (tail_items (state_of (loop_step d ev s))) \<subseteq> set (tail_items s)"
proof -
  obtain out where out: "loop_step d ev s = out" by simp
  then have "set (tail_items (state_of out)) \<subseteq> set (tail_items s)"
  proof (cases rule: loop_step_elim)
    case Producer
    then show ?thesis
      by (auto simp: producer_next_def split: producer_state.splits list.splits if_splits)
  qed (auto simp: flush_eq Let_def received_def)
  with out show ?thesis by simp
qed

lemma run_tail_items:
  "set (tail_items (state_of (run_loop d evs s))) \<subseteq> set (tail_items s)"
proof (induction evs arbitrary: s)
  case Nil
  then show ?case by simp
next
  case (Cons ev evs)
  show ?case
  proof (cases "loop_step d ev s")
    case (Returned e s')
    with step_tail_items[of d ev s] show ?thesis by simp
  next
    case (Streaming s')
    with step_tail_items[of d ev s] Cons.IH[of s'] show ?thesis by auto
  qed
qed

subsection \<open>The paths through Run\<close>

lemma Run_elim [case_names Config DestConnect SourceConnect Loop]:
  obtains e where "is_configuration_error e"
      and "\<And>sched. Run env opts sched = Returned (Some e) (before_loop [])"
  | m where "\<And>sched. Run env opts sched = Returned (Some (DestConnectError m)) (before_loop [GetSessionTo])"
  | m where "\<And>sched. Run env opts sched =
        Returned (Some (SourceConnectError m)) (before_loop [GetSessionTo, GetSessionFrom, CloseTo])"
  | oplogDB oplogColl where
      "\<And>sched. Run env opts sched =
         closing (run_loop (dest env) sched (loop_entry env opts oplogDB oplogColl))"
proof (cases "split_ns env (OplogNS opts)")
  case (Inl m)
  then have "\<And>sched. Run env opts sched = Returned (Some (NamespaceError m)) (before_loop [])"
    by (simp add: Run_def)
  then show ?thesis using that(1)[of "NamespaceError m"] by simp
next
  case (Inr p)
  obtain oplogDB oplogColl where p: "p = (oplogDB, oplogColl)" by (cases p)
  show ?thesis
  proof (cases "oplogColl = []")
    case True
    with Inr p have "\<And>sched. Run env opts sched = Returned (Some NoCollection) (before_loop [])"
      by (simp add: Run_def)
    then show ?thesis using that(1)[of NoCollection] by simp
  next
    case False
    show ?thesis
    proof (cases "session_to env")
      case (Some m)
      with Inr p False that(2)[of m] show ?thesis by (simp add: Run_def)
    next
      case None
      note to = None
      show ?thesis
      proof (cases "session_from env")
        case (Some m)
        with Inr p False to that(3)[of m] show ?thesis by (simp add: Run_def)
      next
        case None
        with Inr p False to that(4)[of oplogDB oplogColl] show ?thesis
          by (simp add: Run_def closing_def)
      qed
    qed
  qed
qed

lemma loop_entry_simps [simp]:
  "tail_items (loop_entry env opts a b) = cursor_items env opts"
  "opsToApply (loop_entry env opts a b) = []"
  "producer (loop_entry env opts a b) = Reading"
  "apply_calls (effects (loop_entry env opts a b)) = []"
  "apply_returns (effects (loop_entry env opts a b)) = []"
  by (simp_all add: loop_entry_def)

lemma before_loop_simps [simp]:
  "tail_items (before_loop effs) = []"
  "opsToApply (before_loop effs) = []"
  "effects (before_loop effs) = effs"
  by (simp_all add: before_loop_def)

lemma closing_simps [simp]:
  "apply_calls (effects (state_of (closing out))) = apply_calls (effects (state_of out))"
  "apply_returns (effects (state_of (closing out))) = apply_returns (effects (state_of out))"
  "opsToApply (state_of (closing out)) = opsToApply (state_of out)"
  "tail_items (state_of (closing out)) = tail_items (state_of out)"
  "producer (state_of (closing out)) = producer (state_of out)"
  by (cases out; simp add: closing_def apply_calls_append apply_returns_append)+

lemma closing_Streaming [simp]: "closing out = Streaming s \<longleftrightarrow> out = Streaming s"
  by (cases out) (simp_all add: closing_def)

lemma sequential_loop_entry: "sequential (effects (loop_entry env opts a b))"
  by (simp add: loop_entry_def sequential_def outstanding_def take_Cons split: nat.split)

lemma Run_sequential: "sequential (effects (state_of (Run env opts sched)))"
proof (cases env opts rule: Run_elim)
  case (Loop a b)
  have "sequential (effects (state_of (run_loop (dest env) sched (loop_entry env opts a b))))"
    by (rule run_sequential) (rule sequential_loop_entry)
  then have "sequential (effects (state_of (closing (run_loop (dest env) sched (loop_entry env opts a b)))))"
    by (cases "run_loop (dest env) sched (loop_entry env opts a b)")
       (simp_all add: closing_def sequential_quiet)
  with Loop show ?thesis by simp
qed (simp_all add: sequential_def outstanding_def take_Cons split: nat.split)

subsection \<open>Evaluating the examples\<close>

lemmas run_eval =
  Run_def loop_entry_def cursor_items_def selects_def buildTailingCursor_def
  thresholdShifted_def thresholdAsUnix_def secondsInPast_def producer_next_def maxSize_def
  flush_def Let_def before_loop_def delivered_def
  example_env_def example_opts_def example_log_def plain_log_def example_entry_def
  example_schedule_def accepting_def rejecting_def

subsection \<open>Run as a whole\<close>

lemma forwardable_id: "\<forall>e\<in>set es. Operation e \<noteq> ''n'' \<Longrightarrow> forwardable es = es"
  by (simp add: forwardable_def)

lemma accounted_loop_entry: "accounted (loop_entry env opts a b) = forwardable (cursor_items env opts)"
  by (simp add: accounted_def delivered_def upcoming_def)

lemma Run_Streaming_accounted:
  assumes "Run env opts sched = Streaming s"
  shows "accounted s = forwardable (cursor_items env opts)"
    and "set (tail_items s) \<subseteq> set (cursor_items env opts)"
proof -
  have "accounted s = forwardable (cursor_items env opts) \<and> set (tail_items s) \<subseteq> set (cursor_items env opts)"
  proof (cases env opts rule: Run_elim)
    case (Loop a b)
    with assms have r: "run_loop (dest env) sched (loop_entry env opts a b) = Streaming s"
      by simp
    from run_Streaming_accounted[OF r] run_tail_items[of "dest env" sched "loop_entry env opts a b"] r
    show ?thesis by (simp add: accounted_loop_entry)
  qed (use assms in simp_all)
  then show "accounted s = forwardable (cursor_items env opts)"
    and "set (tail_items s) \<subseteq> set (cursor_items env opts)" by simp_all
qed

lemma Run_delivered_prefix:
  "prefix (delivered (state_of (Run env opts sched))) (forwardable (cursor_items env opts))"
proof (cases env opts rule: Run_elim)
  case (Loop a b)
  let ?out = "run_loop (dest env) sched (loop_entry env opts a b)"
  have d: "delivered (state_of (closing ?out)) = delivered (state_of ?out)"
    by (simp add: delivered_def)
  have "prefix (delivered (state_of ?out)) (accounted (loop_entry env opts a b))"
  proof (cases ?out)
    case (Returned e s)
    from run_Returned_accounted[OF this] Returned show ?thesis
      by (metis prefixI state_of.simps(1))
  next
    case (Streaming s)
    from run_Streaming_accounted[OF this] Streaming show ?thesis
      by (metis accounted_def prefixI state_of.simps(2))
  qed
  with d Loop show ?thesis by (simp add: accounted_loop_entry)
qed (simp_all add: delivered_def)

lemma in_delivered:
  "(t, b) \<in> set (apply_calls (effects s)) \<Longrightarrow> set b \<subseteq> set (delivered s)"
  by (auto simp: delivered_def)

lemma Run_sized: "sized (effects (state_of (Run env opts sched)))"
proof (cases env opts rule: Run_elim)
  case (Loop a b)
  have "sized (effects (state_of (run_loop (dest env) sched (loop_entry env opts a b))))"
    by (rule run_sized) (simp_all add: sized_def maxSize_def)
  with Loop show ?thesis by (simp add: sized_def)
qed (simp_all add: sized_def)

subsection \<open>Filling the buffer up to the threshold\<close>

lemma run_loop_fill:
  "producer s = Reading \<Longrightarrow> tail_items s = replicate n e @ rest \<Longrightarrow> Operation e \<noteq> ''n'' \<Longrightarrow>
   length (opsToApply s) + n < maxSize \<Longrightarrow>
   run_loop d (fill_schedule n) s =
     Streaming (s\<lparr>tail_items := rest, opsToApply := opsToApply s @ replicate n e,
                  producer := Reading, opCount := opCount s + int n\<rparr>)"
proof (induction n arbitrary: s)
  case 0
  then show ?case by (simp add: fill_schedule_def)
next
  case (Suc n)
  let ?s1 = "s\<lparr>tail_items := replicate n e @ rest, opsToApply := opsToApply s @ [e],
                producer := Reading, opCount := opCount s + 1\<rparr>"
  have step: "run_loop d (fill_schedule (Suc n)) s = run_loop d (fill_schedule n) ?s1"
    using Suc.prems by (simp add: fill_schedule_def producer_next_def Let_def)
  have "run_loop d (fill_schedule n) ?s1 =
     Streaming (?s1\<lparr>tail_items := rest, opsToApply := opsToApply ?s1 @ replicate n e,
                  producer := Reading, opCount := opCount ?s1 + int n\<rparr>)"
    using Suc.prems by (intro Suc.IH) simp_all
  with step show ?case by (simp add: replicate_app_Cons_same)
qed

lemma cursor_items_full_log:
  "cursor_items (example_env full_log None d) example_opts = full_log"
proof -
  have "selects (buildTailingCursor (now_ns (example_env full_log None d)) example_opts)
          (example_entry 1700000050 ''i'')"
    by (simp add: run_eval)
  then show ?thesis by (simp add: cursor_items_def full_log_def example_env_def)
qed

lemma full_log_split:
  "full_log = replicate (maxSize - 1) (example_entry 1700000050 ''i'') @ [example_entry 1700000050 ''i'']"
proof -
  have "maxSize = Suc (maxSize - 1)" by (simp add: maxSize_def)
  then have "full_log = replicate (Suc (maxSize - 1)) (example_entry 1700000050 ''i'')"
    by (simp add: full_log_def)
  then show ?thesis by (simp only: replicate_Suc replicate_append_same)
qed

lemma Run_full_log:
  "apply_calls (effects (state_of (Run (example_env full_log None accepting) example_opts
      (fill_schedule (maxSize - 1) @ [ProducerNext, Handoff])))) = [(SizeTrigger, full_log)]"
proof -
  let ?E = "example_env full_log None accepting"
  let ?e = "example_entry 1700000050 ''i''"
  let ?s0 = "loop_entry ?E example_opts ''local'' ''oplog.rs''"
  let ?s1 = "?s0\<lparr>tail_items := [?e], opsToApply := opsToApply ?s0 @ replicate (maxSize - 1) ?e,
                  producer := Reading, opCount := opCount ?s0 + int (maxSize - 1)\<rparr>"
  have R: "Run ?E example_opts sched = closing (run_loop accepting sched ?s0)" for sched
    by (simp add: Run_def example_env_def closing_def)
  have t: "tail_items ?s0 = replicate (maxSize - 1) ?e @ [?e]"
    using cursor_items_full_log[of accepting] full_log_split by simp
  have "length (opsToApply ?s0) + (maxSize - 1) < maxSize" by (simp add: maxSize_def)
  with t have f: "run_loop accepting (fill_schedule (maxSize - 1)) ?s0 = Streaming ?s1"
    by (intro run_loop_fill) (simp_all add: example_entry_def)
  have "apply_calls (effects (state_of (run_loop accepting [ProducerNext, Handoff] ?s1)))
          = [(SizeTrigger, replicate (maxSize - 1) ?e @ [?e])]"
    by (simp add: producer_next_def example_entry_def Let_def flush_eq accepting_def
        apply_calls_append)
  with f full_log_split show ?thesis
    by (simp add: R run_loop_append)
qed

subsection \<open>Leaving the loop\<close>

lemma ApplyReturn_in_effects:
  "ApplyReturn r \<in> set effs \<longleftrightarrow> r \<in> set (apply_returns effs)"
  by (induction effs rule: apply_returns.induct) auto

lemma run_Returned_last:
  "run_loop d evs s = Returned e s' \<Longrightarrow>
   \<exists>r. failed r \<and> e = Some (apply_error r) \<and> effects s' \<noteq> [] \<and> last (effects s') = ApplyReturn r"
proof (induction evs arbitrary: s)
  case Nil
  then show ?case by simp
next
  case (Cons ev evs)
  show ?case
  proof (cases "loop_step d ev s")
    case (Returned e1 s1)
    with Cons.prems have "loop_step d ev s = Returned e s'" by simp
    from step_Returned_shape[OF this] show ?thesis by auto
  next
    case (Streaming s1)
    with Cons.prems have "run_loop d evs s1 = Returned e s'" by simp
    then show ?thesis by (rule Cons.IH)
  qed
qed

lemma run_loop_stopped:
  "producer s = Stopped x \<Longrightarrow> opsToApply s = [] \<Longrightarrow> run_loop d evs s = Streaming s"
proof (induction evs)
  case Nil
  then show ?case by simp
next
  case (Cons ev evs)
  then have "loop_step d ev s = Streaming s"
    by (cases ev) (simp_all add: producer_next_def)
  with Cons show ?case by simp
qed

lemma sublist_reply_text: "sublist (reply_text r) (error_message (apply_error r))"
proof (cases r)
  case (TransportFailure m)
  show ?thesis
    unfolding TransportFailure apply_error.simps error_message.simps reply_text.simps
    by (rule sublist_append_leftI)
next
  case (Reply res)
  show ?thesis
    unfolding Reply apply_error.simps error_message.simps reply_text.simps
    by (rule sublist_append_leftI)
qed

subsection \<open>The threshold\<close>

lemma sint_neg_secondsInPast:
  assumes "- 9223372036 \<le> sint (Seconds opts)" and "sint (Seconds opts) \<le> 9223372036"
  shows "sint (- secondsInPast opts) = - (sint (Seconds opts) * 1000000000)"
proof -
  let ?N = "sint (Seconds opts)"
  have w: "Seconds opts = word_of_int ?N" by simp
  have "(word_of_int (- (?N * 1000000000)) :: 64 word) = - (word_of_int ?N * 1000000000)"
    by (simp del: of_int_sint)
  also have "\<dots> = - secondsInPast opts"
    by (simp add: secondsInPast_def)
  finally have "- secondsInPast opts = (word_of_int (- (?N * 1000000000)) :: 64 word)"
    by (rule sym)
  then have "sint (- secondsInPast opts) = signed_take_bit 63 (- (?N * 1000000000))"
    by (simp only: sint_sbintrunc') simp
  also have "\<dots> = - (?N * 1000000000)"
    using assms by (intro signed_take_bit_int_eq_self) simp_all
  finally show ?thesis .
qed

lemma thresholdAsUnix_eq:
  assumes "- 9223372036 \<le> sint (Seconds opts)" and "sint (Seconds opts) \<le> 9223372036"
  shows "thresholdAsUnix now opts = now div 1000000000 - sint (Seconds opts)"
proof -
  have "thresholdAsUnix now opts = (now + (- sint (Seconds opts)) * 1000000000) div 1000000000"
    by (simp add: thresholdAsUnix_def sint_neg_secondsInPast[OF assms])
  also have "\<dots> = (- sint (Seconds opts)) + now div 1000000000"
    by (rule div_mult_self1) simp
  finally show ?thesis by simp
qed

text \<open>
  The bound in the two lemmas above is where the nanoseconds of the window still fit the
  64-bit duration. With now in the 32-bit range of seconds, it admits every window whose
  threshold is in that range too. Beyond it the product wraps: a window of 9,223,372,037
  seconds puts the threshold after now.
\<close>

lemma thresholdAsUnix_wrapped:
  "thresholdAsUnix (1700000100 * 1000000000) \<lparr>OplogNS = ''local.oplog.rs'', Seconds = 9223372037\<rparr>
     = 10923372136"
  by (simp add: thresholdAsUnix_def secondsInPast_def)

subsection \<open>Reading the cursor dry\<close>

lemma fill_schedule_Suc:
  "fill_schedule (Suc n) = ProducerNext # Handoff # fill_schedule n"
  by (simp add: fill_schedule_def)

lemma run_loop_drain:
  assumes ok: "\<And>n b. \<not> failed (d n b)"
  shows "producer s = Reading \<Longrightarrow>
         \<exists>s'. run_loop d (fill_schedule (length (tail_items s))) s = Streaming s' \<and>
              tail_items s' = [] \<and> producer s' = Reading"
proof (induction "tail_items s" arbitrary: s)
  case Nil
  then show ?case by (simp add: fill_schedule_def)
next
  case (Cons e rest)
  from Cons.hyps(2) have t: "tail_items s = e # rest" by simp
  have "\<exists>s1. run_loop d [ProducerNext, Handoff] s = Streaming s1 \<and> tail_items s1 = rest \<and>
          producer s1 = Reading"
  proof (cases "Operation e = ''n''")
    case True
    with t Cons.prems show ?thesis by (simp add: producer_next_def)
  next
    case False
    with t Cons.prems ok show ?thesis
      by (simp add: producer_next_def Let_def flush_eq)
  qed
  then obtain s1 where s1: "run_loop d [ProducerNext, Handoff] s = Streaming s1"
    "tail_items s1 = rest" "producer s1 = Reading" by blast
  from Cons.hyps(1)[of s1] s1 obtain s' where
    "run_loop d (fill_schedule (length (tail_items s1))) s1 = Streaming s'"
    "tail_items s' = []" "producer s' = Reading" by auto
  moreover have "run_loop d (fill_schedule (length (tail_items s))) s
      = run_loop d (fill_schedule (length (tail_items s1))) s1"
    using run_loop_append[of d "[ProducerNext, Handoff]" "fill_schedule (length rest)" s] s1 t
    by (simp add: fill_schedule_Suc)
  ultimately show ?case by simp
qed

lemma Run_reads_cursor_dry:
  assumes "split_ns env (OplogNS opts) = Inr (oplogDB, oplogColl)" and "oplogColl \<noteq> []"
    and "session_to env = None" and "session_from env = None"
    and ok: "\<And>n b. \<not> failed (dest env n b)"
  shows "\<exists>s. Run env opts (fill_schedule (length (cursor_items env opts)) @ [Tick]) = Streaming s \<and>
             delivered s = forwardable (cursor_items env opts) \<and>
             opsToApply s = [] \<and> producer s = Reading \<and> tail_items s = []"
proof -
  let ?s0 = "loop_entry env opts oplogDB oplogColl"
  let ?sched = "fill_schedule (length (cursor_items env opts)) @ [Tick]"
  have R: "Run env opts ?sched = closing (run_loop (dest env) ?sched ?s0)"
    using assms(1-4) by (simp add: Run_def closing_def)
  from run_loop_drain[of "dest env" ?s0, OF ok] obtain s1 where
    s1: "run_loop (dest env) (fill_schedule (length (cursor_items env opts))) ?s0 = Streaming s1"
      "tail_items s1 = []" "producer s1 = Reading" by auto
  have "\<exists>s. loop_step (dest env) Tick s1 = Streaming s \<and> opsToApply s = [] \<and>
          producer s = Reading \<and> tail_items s = []"
    using s1(2,3) ok by (simp add: flush_eq Let_def)
  then obtain s where s: "loop_step (dest env) Tick s1 = Streaming s" "opsToApply s = []"
    "producer s = Reading" "tail_items s = []" by blast
  from s1(1) s(1) have L: "run_loop (dest env) ?sched ?s0 = Streaming s"
    by (simp add: run_loop_append)
  with R have RS: "Run env opts ?sched = Streaming s" by simp
  from Run_Streaming_accounted(1)[OF RS] s(2-4)
  have "delivered s = forwardable (cursor_items env opts)"
    by (simp add: accounted_def upcoming_def forwardable_def)
  with RS s(2-4) show ?thesis by simp
qed

lemma Run_Streaming_started:
  assumes "Run env opts sched = Streaming s"
  obtains oplogDB oplogColl where "split_ns env (OplogNS opts) = Inr (oplogDB, oplogColl)"
    and "oplogColl \<noteq> []" and "session_to env = None" and "session_from env = None"
  using assms by (auto simp: Run_def split: sum.splits prod.splits if_splits option.splits)

subsection \<open>What Run applies was selected by the query\<close>

lemma Run_applies_selected:
  assumes "(t, b) \<in> set (apply_calls (effects (state_of (Run env opts sched))))" and "x \<in> set b"
  shows "selects (buildTailingCursor (now_ns env) opts) x"
proof -
  from in_delivered[OF assms(1)] assms(2)
  have "x \<in> set (delivered (state_of (Run env opts sched)))" by blast
  with Run_delivered_prefix[of env opts sched]
  have "x \<in> set (forwardable (cursor_items env opts))"
    by (auto dest: set_mono_prefix)
  then show ?thesis by (simp add: forwardable_def cursor_items_def)
qed

section \<open>The properties\<close>

text \<open>
  C1. While \<open>Run\<close> is streaming an input of entries none of which is a no-op, the batches
  passed to the apply calls, in call order, followed by the buffer, the entry the goroutine
  holds and the entries not yet read, are the input exactly; so once everything read has
  been flushed, the concatenation of the applied batches is the input: nothing lost,
  duplicated or reordered. With a destination that never fails, the run that reads the
  cursor dry and then meets a timer tick has applied exactly the input. At every point of
  a run at most one apply call has been issued and has not returned.
\<close>

theorem applied_batches_equal_input:
  assumes "Run env opts sched = Streaming s"
    and "\<forall>e\<in>set (cursor_items env opts). Operation e \<noteq> ''n''"
  shows "delivered s @ opsToApply s @ in_hand (producer s) @ tail_items s = cursor_items env opts \<and>
         (opsToApply s = [] \<and> in_hand (producer s) = [] \<and> tail_items s = [] \<longrightarrow>
            delivered s = cursor_items env opts) \<and>
         ((\<forall>n b. \<not> failed (dest env n b)) \<longrightarrow>
            (\<exists>s'. Run env opts (fill_schedule (length (cursor_items env opts)) @ [Tick])
                    = Streaming s' \<and>
                  delivered s' = cursor_items env opts)) \<and>
         (\<forall>k. 0 \<le> outstanding (take k (effects s)) \<and> outstanding (take k (effects s)) \<le> 1)"
proof -
  from Run_Streaming_accounted(2)[OF assms(1)] assms(2)
  have "\<forall>e\<in>set (tail_items s). Operation e \<noteq> ''n''" by blast
  then have "forwardable (tail_items s) = tail_items s" by (rule forwardable_id)
  with Run_Streaming_accounted(1)[OF assms(1)] forwardable_id[OF assms(2)]
  have eq: "delivered s @ opsToApply s @ in_hand (producer s) @ tail_items s = cursor_items env opts"
    by (simp add: accounted_def upcoming_def)
  have dry: "\<exists>s'. Run env opts (fill_schedule (length (cursor_items env opts)) @ [Tick])
                    = Streaming s' \<and> delivered s' = cursor_items env opts"
    if ok: "\<forall>n b. \<not> failed (dest env n b)"
  proof -
    from assms(1) obtain oplogDB oplogColl where
      i: "split_ns env (OplogNS opts) = Inr (oplogDB, oplogColl)" "oplogColl \<noteq> []"
        "session_to env = None" "session_from env = None"
      by (rule Run_Streaming_started)
    from Run_reads_cursor_dry[OF i] ok forwardable_id[OF assms(2)] show ?thesis by auto
  qed
  from Run_sequential[of env opts sched] assms(1)
  have "\<forall>k. 0 \<le> outstanding (take k (effects s)) \<and> outstanding (take k (effects s)) \<le> 1"
    by (simp add: sequential_def)
  with eq dry show ?thesis by auto
qed

theorem applied_batches_equal_input_witness:
  "Run (example_env plain_log None accepting) example_opts
       [ProducerNext, Handoff, ProducerNext, Handoff, Tick]
     = Streaming (state_of (Run (example_env plain_log None accepting) example_opts
         [ProducerNext, Handoff, ProducerNext, Handoff, Tick])) \<and>
   map Operation (cursor_items (example_env plain_log None accepting) example_opts)
     = [''i'', ''u''] \<and>
   \<not> failed (dest (example_env plain_log None accepting) 0 plain_log) \<and>
   delivered (state_of (Run (example_env plain_log None accepting) example_opts
         [ProducerNext, Handoff, ProducerNext, Handoff, Tick])) = plain_log \<and>
   cursor_items (example_env plain_log None accepting) example_opts = plain_log \<and>
   fill_schedule (length (cursor_items (example_env plain_log None accepting) example_opts)) @ [Tick]
     = [ProducerNext, Handoff, ProducerNext, Handoff, Tick]"
proof -
  let ?E = "example_env plain_log None accepting"
  let ?S = "[ProducerNext, Handoff, ProducerNext, Handoff, Tick]"
  have r: "Run ?E example_opts ?S = Streaming (state_of (Run ?E example_opts ?S))"
    by (simp add: run_eval)
  have c: "cursor_items ?E example_opts = plain_log"
    by (simp add: run_eval)
  have h: "\<forall>e\<in>set (cursor_items ?E example_opts). Operation e \<noteq> ''n''"
    by (simp add: run_eval)
  have e: "opsToApply (state_of (Run ?E example_opts ?S)) = [] \<and>
           in_hand (producer (state_of (Run ?E example_opts ?S))) = [] \<and>
           tail_items (state_of (Run ?E example_opts ?S)) = []"
    by (simp add: run_eval)
  have m: "map Operation plain_log = [''i'', ''u'']"
    by (simp add: plain_log_def example_entry_def)
  have ok: "\<forall>n b. \<not> failed (dest ?E n b)"
    by (simp add: example_env_def accepting_def)
  have f: "fill_schedule (length plain_log) @ [Tick] = ?S"
    by (simp add: plain_log_def fill_schedule_def numeral_2_eq_2)
  from applied_batches_equal_input[OF r h] e c r m ok f show ?thesis by simp
qed

text \<open>
  C2. The goroutine drops an entry whose operation is \<open>n\<close> without sending it; the
  entries applied so far, in call order, are an initial part of the cursor's entries with
  the no-ops removed, so the order of the others is kept; and no batch passed to an apply
  call holds a no-op.
\<close>

theorem noops_never_applied:
  "(producer s = Reading \<and> tail_items s = e # rest \<and> Operation e = ''n'' \<longrightarrow>
      producer_next s = s\<lparr>tail_items := rest\<rparr>) \<and>
   prefix (delivered (state_of (Run env opts sched)))
     (filter (\<lambda>e. Operation e \<noteq> ''n'') (cursor_items env opts)) \<and>
   (\<forall>(t, b) \<in> set (apply_calls (effects (state_of (Run env opts sched)))).
      \<forall>x \<in> set b. Operation x \<noteq> ''n'')"
proof -
  have p: "prefix (delivered (state_of (Run env opts sched)))
     (filter (\<lambda>e. Operation e \<noteq> ''n'') (cursor_items env opts))"
    using Run_delivered_prefix[of env opts sched] by (simp add: forwardable_def)
  then have "\<forall>x \<in> set (delivered (state_of (Run env opts sched))). Operation x \<noteq> ''n''"
    by (auto dest!: set_mono_prefix)
  then have "\<forall>(t, b) \<in> set (apply_calls (effects (state_of (Run env opts sched)))).
      \<forall>x \<in> set b. Operation x \<noteq> ''n''"
    using in_delivered by fast
  with p show ?thesis by (simp add: producer_next_def)
qed

theorem noops_never_applied_witness:
  "producer_next (loop_entry (example_env [example_entry 1700000052 ''n''] None accepting) example_opts ''local'' ''oplog.rs'')
     = (loop_entry (example_env [example_entry 1700000052 ''n''] None accepting) example_opts ''local'' ''oplog.rs'')\<lparr>tail_items := []\<rparr> \<and>
   cursor_items (example_env example_log None accepting) example_opts =
     [example_entry 1700000050 ''i'', example_entry 1700000051 ''u'',
      example_entry 1700000052 ''n'', example_entry 1700000053 ''d''] \<and>
   apply_calls (effects (state_of (Run (example_env example_log None accepting) example_opts example_schedule))) =
     [(TimerTrigger, [example_entry 1700000050 ''i'', example_entry 1700000051 ''u'']),
      (TimerTrigger, [example_entry 1700000053 ''d''])] \<and>
   prefix [example_entry 1700000050 ''i'', example_entry 1700000051 ''u'', example_entry 1700000053 ''d'']
     (filter (\<lambda>e. Operation e \<noteq> ''n'') (cursor_items (example_env example_log None accepting) example_opts))"
proof -
  let ?E = "example_env example_log None accepting"
  let ?s = "loop_entry (example_env [example_entry 1700000052 ''n''] None accepting) example_opts ''local'' ''oplog.rs''"
  have h: "producer ?s = Reading \<and> tail_items ?s = example_entry 1700000052 ''n'' # [] \<and>
           Operation (example_entry 1700000052 ''n'') = ''n''"
    by (simp add: run_eval)
  have c: "cursor_items ?E example_opts =
     [example_entry 1700000050 ''i'', example_entry 1700000051 ''u'',
      example_entry 1700000052 ''n'', example_entry 1700000053 ''d'']"
    by (simp add: run_eval)
  have a: "apply_calls (effects (state_of (Run ?E example_opts example_schedule))) =
     [(TimerTrigger, [example_entry 1700000050 ''i'', example_entry 1700000051 ''u'']),
      (TimerTrigger, [example_entry 1700000053 ''d''])]"
    by (simp add: run_eval)
  then have d: "delivered (state_of (Run ?E example_opts example_schedule)) =
     [example_entry 1700000050 ''i'', example_entry 1700000051 ''u'', example_entry 1700000053 ''d'']"
    by (simp add: delivered_def)
  from noops_never_applied[of ?s "example_entry 1700000052 ''n''" "[]" ?E example_opts example_schedule]
    h c a d show ?thesis by simp
qed

text \<open>
  C3. The size threshold is 10000, and every batch passed to an apply call has at least
  one entry and at most 10000; a batch sent because the buffer reached the threshold has
  exactly 10000.
\<close>

theorem batch_sizes:
  "maxSize = 10000 \<and>
   (\<forall>(t, b) \<in> set (apply_calls (effects (state_of (Run env opts sched)))).
      0 < length b \<and> length b \<le> maxSize \<and> (t = SizeTrigger \<longrightarrow> length b = maxSize))"
  using Run_sized[of env opts sched]
  by (auto simp: sized_def batch_ok_def list_all_iff maxSize_def)

theorem batch_sizes_witness:
  "apply_calls (effects (state_of (Run (example_env example_log None accepting) example_opts example_schedule))) =
     [(TimerTrigger, [example_entry 1700000050 ''i'', example_entry 1700000051 ''u'']),
      (TimerTrigger, [example_entry 1700000053 ''d''])] \<and>
   apply_calls (effects (state_of (Run (example_env full_log None accepting) example_opts
      (fill_schedule (maxSize - 1) @ [ProducerNext, Handoff])))) = [(SizeTrigger, full_log)] \<and>
   length full_log = 10000"
proof -
  let ?E = "example_env example_log None accepting"
  have a: "apply_calls (effects (state_of (Run ?E example_opts example_schedule))) =
     [(TimerTrigger, [example_entry 1700000050 ''i'', example_entry 1700000051 ''u'']),
      (TimerTrigger, [example_entry 1700000053 ''d''])]"
    by (simp add: run_eval)
  from batch_sizes[of ?E example_opts example_schedule]
       batch_sizes[of "example_env full_log None accepting" example_opts
                      "fill_schedule (maxSize - 1) @ [ProducerNext, Handoff]"]
       a Run_full_log
  show ?thesis by simp
qed

text \<open>
  C4. If in a run of \<open>Run\<close> an apply call fails, in transport or by a response that is not
  ok, then \<open>Run\<close> has returned the error built from that reply, whose message contains the
  reply's text; the failed call is the last apply call of the run, followed only by the
  deferred closes, every call before it succeeded, and no further event makes \<open>Run\<close> do
  anything more.
\<close>

theorem apply_failure_is_fatal:
  assumes "ApplyReturn r \<in> set (effects (state_of (Run env opts sched)))" and "failed r"
  shows "\<exists>s pre t b.
           Run env opts sched = Returned (Some (apply_error r)) s \<and>
           effects s = pre @ [ApplyCall t b, ApplyReturn r, CloseTail, CloseFrom, CloseTo] \<and>
           clean pre \<and>
           (\<forall>extra. Run env opts (sched @ extra) = Run env opts sched) \<and>
           sublist (reply_text r) (error_message (apply_error r))"
proof (cases env opts rule: Run_elim)
  case (Loop a b)
  let ?s0 = "loop_entry env opts a b"
  have c0: "clean (effects ?s0)" by (simp add: clean_def)
  show ?thesis
  proof (cases "run_loop (dest env) sched ?s0")
    case (Streaming s)
    from run_Streaming_clean[OF this c0] assms Loop Streaming show ?thesis
      by (auto simp: closing_def clean_def list_all_iff ApplyReturn_in_effects)
  next
    case (Returned e s')
    from run_Returned_shape[OF this c0] obtain pre t r' where
      sh: "effects s' = pre @ [ApplyCall t (opsToApply s'), ApplyReturn r']" "clean pre"
        "failed r'" "e = Some (apply_error r')"
      by blast
    from assms(1) Loop Returned sh(1) have "r \<in> set (apply_returns pre) \<or> r = r'"
      by (auto simp: closing_def ApplyReturn_in_effects)
    with sh(2) assms(2) have r: "r = r'" by (auto simp: clean_def list_all_iff)
    have ext: "Run env opts (sched @ extra) = Run env opts sched" for extra
      using Loop Returned by (simp add: run_loop_append)
    from Loop Returned sh r ext sublist_reply_text[of r] show ?thesis
      by (simp add: closing_def)
  qed
qed (use assms(1) in simp_all)

theorem apply_failure_is_fatal_witness:
  "Run (example_env example_log None rejecting) example_opts example_schedule
     = Returned (Some (ApplyServerError ''duplicate key''))
         (state_of (Run (example_env example_log None rejecting) example_opts example_schedule)) \<and>
   effects (state_of (Run (example_env example_log None rejecting) example_opts example_schedule))
     = effects (loop_entry (example_env example_log None rejecting) example_opts ''local'' ''oplog.rs'') @
       [ApplyCall TimerTrigger [example_entry 1700000050 ''i'', example_entry 1700000051 ''u''],
        ApplyReturn (Reply \<lparr>Ok = False, ErrMsg = ''duplicate key''\<rparr>),
        CloseTail, CloseFrom, CloseTo] \<and>
   failed (Reply \<lparr>Ok = False, ErrMsg = ''duplicate key''\<rparr>) \<and>
   sublist ''duplicate key''
     (error_message (ApplyServerError ''duplicate key'')) \<and>
   Run (example_env example_log None rejecting) example_opts (example_schedule @ example_schedule)
     = Run (example_env example_log None rejecting) example_opts example_schedule"
proof -
  let ?E = "example_env example_log None rejecting"
  let ?r = "Reply \<lparr>Ok = False, ErrMsg = ''duplicate key''\<rparr>"
  have eff: "effects (state_of (Run ?E example_opts example_schedule))
     = effects (loop_entry ?E example_opts ''local'' ''oplog.rs'') @
       [ApplyCall TimerTrigger [example_entry 1700000050 ''i'', example_entry 1700000051 ''u''],
        ApplyReturn ?r, CloseTail, CloseFrom, CloseTo]"
    by (simp add: run_eval)
  then have h1: "ApplyReturn ?r \<in> set (effects (state_of (Run ?E example_opts example_schedule)))"
    by simp
  have h2: "failed ?r" by simp
  from apply_failure_is_fatal[OF h1 h2] eff h2 show ?thesis by auto
qed

text \<open>
  C5 as the spec states it, for every window, fails: the nanoseconds of a window of
  9,223,372,037 seconds do not fit the 64-bit duration, the product wraps, and at second
  1,700,000,100 the threshold the code computes is not the unix seconds of now less the
  window, shifted left by 32 bits.
\<close>

theorem resume_threshold_unbounded_counterexample:
  "sint (Seconds (example_opts\<lparr>Seconds := 9223372037\<rparr>)) = 9223372037 \<and>
   ts_gte (buildTailingCursor (1700000100 * 1000000000) (example_opts\<lparr>Seconds := 9223372037\<rparr>))
     = 10022037938738561024 \<and>
   push_bit 32 (word_of_int (1700000100 * 1000000000 div 1000000000 - 9223372037) :: 64 word)
     = 4580851722359930880 \<and>
   ts_gte (buildTailingCursor (1700000100 * 1000000000) (example_opts\<lparr>Seconds := 9223372037\<rparr>))
     \<noteq> push_bit 32
         (word_of_int (1700000100 * 1000000000 div 1000000000
            - sint (Seconds (example_opts\<lparr>Seconds := 9223372037\<rparr>))) :: 64 word)"
  by (simp add: buildTailingCursor_def thresholdShifted_def thresholdAsUnix_def
      secondsInPast_def example_opts_def)

text \<open>
  C5, as the code has it. For a look-back window of N seconds with N between
  -9,223,372,036 and 9,223,372,036, where the nanoseconds fit the 64-bit duration, the
  query built has as its threshold the 64-bit word of the unix seconds of now, less N,
  shifted left by 32 bits, with log replay and a tail timeout of 600 seconds; the low 32
  bits of the threshold are zero; the query selects an entry exactly when its timestamp is
  at least the threshold. In \<open>Run\<close>, every entry of every batch passed to an apply call has
  a timestamp at least the threshold, and with a destination that never fails the run that
  reads the cursor dry and then meets a timer tick has applied exactly the entries of the
  source log with a timestamp at least the threshold that are not no-ops. With N = 60 at
  second 1,700,000,100 the threshold is 1,700,000,040 shifted left by 32 bits.
\<close>

theorem resume_threshold:
  assumes "- 9223372036 \<le> sint (Seconds opts)" and "sint (Seconds opts) \<le> 9223372036"
  shows "buildTailingCursor now opts
           = \<lparr>ts_gte = push_bit 32
                (word_of_int (now div 1000000000 - sint (Seconds opts)) :: 64 word),
              log_replay = True, tail_timeout_seconds = 600\<rparr> \<and>
         take_bit 32 (ts_gte (buildTailingCursor now opts)) = 0 \<and>
         (selects (buildTailingCursor now opts) (e :: 'doc Oplog) \<longleftrightarrow>
            push_bit 32 (word_of_int (now div 1000000000 - sint (Seconds opts)) :: 64 word)
              \<le> Timestamp e) \<and>
         (\<forall>(t, b) \<in> set (apply_calls (effects (state_of
              (Run (env :: 'doc env) opts sched)))).
            \<forall>x \<in> set b.
              push_bit 32
                (word_of_int (now_ns env div 1000000000 - sint (Seconds opts)) :: 64 word)
                \<le> Timestamp x) \<and>
         (split_ns env (OplogNS opts) = Inr (oplogDB, oplogColl) \<and> oplogColl \<noteq> [] \<and>
          session_to env = None \<and> session_from env = None \<and>
          (\<forall>n b. \<not> failed (dest env n b)) \<longrightarrow>
            (\<exists>s. Run env opts (fill_schedule (length (cursor_items env opts)) @ [Tick])
                   = Streaming s \<and>
                 delivered s
                   = filter (\<lambda>e. push_bit 32
                         (word_of_int (now_ns env div 1000000000 - sint (Seconds opts))
                            :: 64 word) \<le> Timestamp e \<and> Operation e \<noteq> ''n'')
                       (source_log env)))"
proof -
  have t: "ts_gte (buildTailingCursor t opts)
           = push_bit 32 (word_of_int (t div 1000000000 - sint (Seconds opts)) :: 64 word)" for t
    by (simp add: buildTailingCursor_def thresholdShifted_def thresholdAsUnix_eq[OF assms]
        del: of_int_sint)
  have q: "buildTailingCursor now opts
           = \<lparr>ts_gte = push_bit 32
                (word_of_int (now div 1000000000 - sint (Seconds opts)) :: 64 word),
              log_replay = True, tail_timeout_seconds = 600\<rparr>"
    using t[of now] by (simp add: buildTailingCursor_def)
  have z: "take_bit 32 (ts_gte (buildTailingCursor now opts)) = 0"
    by (simp add: buildTailingCursor_def thresholdShifted_def take_bit_push_bit)
  have s: "selects (buildTailingCursor t opts) x \<longleftrightarrow>
             push_bit 32 (word_of_int (t div 1000000000 - sint (Seconds opts)) :: 64 word)
               \<le> Timestamp x" for t and x :: "'doc Oplog"
    unfolding selects_def t by (rule refl)
  have a: "\<forall>(t, b) \<in> set (apply_calls (effects (state_of (Run env opts sched)))).
            \<forall>x \<in> set b.
              push_bit 32
                (word_of_int (now_ns env div 1000000000 - sint (Seconds opts)) :: 64 word)
                \<le> Timestamp x"
    using Run_applies_selected[of _ _ env opts sched] s[of "now_ns env"] by fast
  have d: "\<exists>s. Run env opts (fill_schedule (length (cursor_items env opts)) @ [Tick])
                   = Streaming s \<and>
                 delivered s
                   = filter (\<lambda>e. push_bit 32
                         (word_of_int (now_ns env div 1000000000 - sint (Seconds opts))
                            :: 64 word) \<le> Timestamp e \<and> Operation e \<noteq> ''n'')
                       (source_log env)"
    if i: "split_ns env (OplogNS opts) = Inr (oplogDB, oplogColl)" "oplogColl \<noteq> []"
      "session_to env = None" "session_from env = None"
      and ok: "\<forall>n b. \<not> failed (dest env n b)"
  proof -
    have f: "forwardable (cursor_items env opts)
               = filter (\<lambda>e. push_bit 32
                         (word_of_int (now_ns env div 1000000000 - sint (Seconds opts))
                            :: 64 word) \<le> Timestamp e \<and> Operation e \<noteq> ''n'')
                       (source_log env)"
      unfolding forwardable_def cursor_items_def filter_filter
      by (rule filter_cong) (simp_all add: s conj_commute)
    from Run_reads_cursor_dry[OF i] ok f show ?thesis by auto
  qed
  from q z s[of now e] a d show ?thesis by blast
qed

theorem resume_threshold_witness:
  "sint (Seconds example_opts) = 60 \<and>
   buildTailingCursor (1700000100 * 1000000000) example_opts
     = \<lparr>ts_gte = push_bit 32 (1700000040 :: 64 word), log_replay = True,
        tail_timeout_seconds = 600\<rparr> \<and>
   ts_gte (buildTailingCursor 1700000100999999999 example_opts) = 7301444574998691840 \<and>
   take_bit 32 (7301444574998691840 :: 64 word) = 0 \<and>
   drop_bit 32 (7301444574998691840 :: 64 word) = 1700000040 \<and>
   apply_calls (effects (state_of
       (Run (example_env example_log None accepting) example_opts example_schedule)))
     = [(TimerTrigger, [example_entry 1700000050 ''i'', example_entry 1700000051 ''u'']),
        (TimerTrigger, [example_entry 1700000053 ''d''])] \<and>
   split_ns (example_env example_log None accepting) (OplogNS example_opts)
     = Inr (''local'', ''oplog.rs'') \<and>
   session_to (example_env example_log None accepting) = None \<and>
   session_from (example_env example_log None accepting) = None \<and>
   \<not> failed (dest (example_env example_log None accepting) 0 []) \<and>
   (\<exists>s. Run (example_env example_log None accepting) example_opts
           (fill_schedule (length (cursor_items (example_env example_log None accepting)
              example_opts)) @ [Tick]) = Streaming s \<and>
        delivered s
          = [example_entry 1700000050 ''i'', example_entry 1700000051 ''u'',
             example_entry 1700000053 ''d''])"
proof -
  let ?E = "example_env example_log None accepting"
  let ?e = "example_entry 1700000050 ''i''"
  have s: "sint (Seconds example_opts) = 60" by (simp add: example_opts_def)
  then have h: "- 9223372036 \<le> sint (Seconds example_opts)" "sint (Seconds example_opts) \<le> 9223372036"
    by simp_all
  note r1 = resume_threshold[OF h, of "1700000100 * 1000000000" ?e ?E example_schedule
      "''local''" "''oplog.rs''"]
  note r2 = resume_threshold[OF h, of "1700000100999999999" ?e ?E example_schedule
      "''local''" "''oplog.rs''"]
  from r1 have a: "buildTailingCursor (1700000100 * 1000000000) example_opts
     = \<lparr>ts_gte = push_bit 32 (1700000040 :: 64 word), log_replay = True,
        tail_timeout_seconds = 600\<rparr>"
    by (simp add: s)
  from r2 have b: "ts_gte (buildTailingCursor 1700000100999999999 example_opts) = 7301444574998691840"
    by (simp add: s)
  have c: "apply_calls (effects (state_of (Run ?E example_opts example_schedule)))
     = [(TimerTrigger, [example_entry 1700000050 ''i'', example_entry 1700000051 ''u'']),
        (TimerTrigger, [example_entry 1700000053 ''d''])]"
    by (simp add: run_eval)
  have i: "split_ns ?E (OplogNS example_opts) = Inr (''local'', ''oplog.rs'')"
    "session_to ?E = None" "session_from ?E = None" "''oplog.rs'' \<noteq> []"
    and ok: "\<forall>n b. \<not> failed (dest ?E n b)"
    by (simp_all add: example_env_def accepting_def)
  have n: "now_ns ?E div 1000000000 = 1700000100" "source_log ?E = example_log"
    by (simp_all add: example_env_def)
  have f: "filter (\<lambda>e. push_bit 32 (1700000040 :: 64 word) \<le> Timestamp e \<and> Operation e \<noteq> ''n'')
             example_log
           = [example_entry 1700000050 ''i'', example_entry 1700000051 ''u'',
              example_entry 1700000053 ''d'']"
    by (simp add: example_log_def example_entry_def)
  from r1 i ok have "\<exists>s. Run ?E example_opts
           (fill_schedule (length (cursor_items ?E example_opts)) @ [Tick]) = Streaming s \<and>
        delivered s
          = filter (\<lambda>e. push_bit 32 (word_of_int (now_ns ?E div 1000000000
                - sint (Seconds example_opts)) :: 64 word) \<le> Timestamp e \<and> Operation e \<noteq> ''n'')
              (source_log ?E)"
    by blast
  then have d: "\<exists>s. Run ?E example_opts
           (fill_schedule (length (cursor_items ?E example_opts)) @ [Tick]) = Streaming s \<and>
        delivered s
          = [example_entry 1700000050 ''i'', example_entry 1700000051 ''u'',
             example_entry 1700000053 ''d'']"
    unfolding n s using f by simp
  have z: "take_bit 32 (7301444574998691840 :: 64 word) = 0"
    "drop_bit 32 (7301444574998691840 :: 64 word) = 1700000040"
    by simp_all
  from ok have ok0: "\<not> failed (dest ?E 0 [])" by blast
  from s a b z c i(1-3) ok0 d show ?thesis by (intro conjI)
qed

text \<open>
  C6. A timer tick that finds the buffer empty leaves \<open>Run\<close> in its loop in the very same
  state: no apply call is issued, and buffer and counters are as before. The same holds
  for any number of such ticks in a row.
\<close>

theorem empty_tick_is_noop:
  "opsToApply s = [] \<Longrightarrow>
   loop_step d Tick s = Streaming s \<and> run_loop d (replicate n Tick) s = Streaming s"
  by (induction n) simp_all

theorem empty_tick_is_noop_witness:
  "opsToApply (loop_entry (example_env example_log None rejecting) example_opts ''local'' ''oplog.rs'') = [] \<and>
   loop_step rejecting Tick (loop_entry (example_env example_log None rejecting) example_opts ''local'' ''oplog.rs'')
     = Streaming (loop_entry (example_env example_log None rejecting) example_opts ''local'' ''oplog.rs'') \<and>
   run_loop rejecting [Tick, Tick, Tick] (loop_entry (example_env example_log None rejecting) example_opts ''local'' ''oplog.rs'')
     = Streaming (loop_entry (example_env example_log None rejecting) example_opts ''local'' ''oplog.rs'')"
proof -
  let ?s = "loop_entry (example_env example_log None rejecting) example_opts ''local'' ''oplog.rs''"
  have h: "opsToApply ?s = []" by simp
  have n: "replicate 3 Tick = [Tick, Tick, Tick]" by (simp add: numeral_3_eq_3)
  from empty_tick_is_noop[OF h, of rejecting 3] h n show ?thesis by simp
qed

text \<open>
  C7. When the namespace is rejected by the split, or splits into a database and an empty
  collection, \<open>Run\<close> returns the configuration error at once, whatever the schedule: it has
  asked neither session provider for a session, and has done nothing else.
\<close>

theorem malformed_namespace_rejected_first:
  "(split_ns env (OplogNS opts) = Inl err \<longrightarrow>
      Run env opts sched = Returned (Some (NamespaceError err)) (before_loop [])) \<and>
   (split_ns env (OplogNS opts) = Inr (oplogDB, []) \<longrightarrow>
      Run env opts sched = Returned (Some NoCollection) (before_loop [])) \<and>
   (split_ns env (OplogNS opts) = Inl err \<or> split_ns env (OplogNS opts) = Inr (oplogDB, []) \<longrightarrow>
      effects (state_of (Run env opts sched)) = [])"
  by (auto simp: Run_def before_loop_def)

theorem malformed_namespace_rejected_first_witness:
  "split_ns no_collection_env (OplogNS (example_opts\<lparr>OplogNS := ''local''\<rparr>)) = Inr (''local'', []) \<and>
   Run no_collection_env (example_opts\<lparr>OplogNS := ''local''\<rparr>) example_schedule
     = Returned (Some NoCollection) (before_loop []) \<and>
   effects (state_of (Run no_collection_env (example_opts\<lparr>OplogNS := ''local''\<rparr>) example_schedule)) = [] \<and>
   split_ns invalid_namespace_env (OplogNS (example_opts\<lparr>OplogNS := ''local.$cmd''\<rparr>))
     = Inl ''namespace is not valid'' \<and>
   Run invalid_namespace_env (example_opts\<lparr>OplogNS := ''local.$cmd''\<rparr>) example_schedule
     = Returned (Some (NamespaceError ''namespace is not valid'')) (before_loop [])"
proof -
  let ?o1 = "example_opts\<lparr>OplogNS := ''local''\<rparr>"
  let ?o2 = "example_opts\<lparr>OplogNS := ''local.$cmd''\<rparr>"
  have h1: "split_ns no_collection_env (OplogNS ?o1) = Inr (''local'', [])"
    by (simp add: no_collection_env_def example_env_def)
  have h2: "split_ns invalid_namespace_env (OplogNS ?o2) = Inl ''namespace is not valid''"
    by (simp add: invalid_namespace_env_def example_env_def)
  from malformed_namespace_rejected_first
         [of no_collection_env ?o1 "''''" example_schedule "''local''"]
       malformed_namespace_rejected_first
         [of invalid_namespace_env ?o2 "''namespace is not valid''" example_schedule "''''"]
       h1 h2
  show ?thesis by simp
qed

text \<open>
  C8. \<open>Run\<close> never returns \<open>nil\<close>. Whenever its loop is left, the error returned is the
  one built from a failed apply reply, and that reply is the last thing that happened.
  When \<open>tail.Next\<close> has nothing more to give, by exhaustion or by a read error, the
  goroutine stops and the loop goes on; with the goroutine stopped and the buffer empty,
  no sequence of events ever makes the loop return.
\<close>

theorem no_success_exit:
  "(\<forall>s. Run env opts sched \<noteq> Returned None s) \<and>
   (\<forall>e s'. run_loop d evs s0 = Returned e s' \<longrightarrow>
      (\<exists>r. failed r \<and> e = Some (apply_error r) \<and> last (effects s') = ApplyReturn r)) \<and>
   (producer s0 = Reading \<and> tail_items s0 = [] \<longrightarrow>
      loop_step d ProducerNext s0 = Streaming (s0\<lparr>producer := Stopped (tail_err s0)\<rparr>)) \<and>
   (producer s0 = Stopped x \<and> opsToApply s0 = [] \<longrightarrow> run_loop d evs s0 = Streaming s0)"
proof -
  have a: "\<forall>s. Run env opts sched \<noteq> Returned None s"
  proof (cases env opts rule: Run_elim)
    case (Loop a b)
    show ?thesis
    proof (cases "run_loop (dest env) sched (loop_entry env opts a b)")
      case (Returned e s')
      from run_Returned_last[OF this] Loop Returned show ?thesis
        by (auto simp: closing_def)
    next
      case (Streaming s')
      with Loop show ?thesis by (simp add: closing_def)
    qed
  qed simp_all
  have b: "\<forall>e s'. run_loop d evs s0 = Returned e s' \<longrightarrow>
      (\<exists>r. failed r \<and> e = Some (apply_error r) \<and> last (effects s') = ApplyReturn r)"
    using run_Returned_last[of d evs s0] by blast
  have c: "producer s0 = Reading \<and> tail_items s0 = [] \<longrightarrow>
      loop_step d ProducerNext s0 = Streaming (s0\<lparr>producer := Stopped (tail_err s0)\<rparr>)"
    by (simp add: producer_next_def)
  from a b c run_loop_stopped[of s0 x d evs] show ?thesis by blast
qed

theorem no_success_exit_witness:
  "run_loop rejecting [ProducerNext, Handoff, Tick]
     (loop_entry (example_env plain_log None rejecting) example_opts ''local'' ''oplog.rs'')
     = Returned (Some (ApplyServerError ''duplicate key''))
         (state_of (run_loop rejecting [ProducerNext, Handoff, Tick]
            (loop_entry (example_env plain_log None rejecting) example_opts ''local'' ''oplog.rs''))) \<and>
   last (effects (state_of (run_loop rejecting [ProducerNext, Handoff, Tick]
      (loop_entry (example_env plain_log None rejecting) example_opts ''local'' ''oplog.rs''))))
     = ApplyReturn (Reply \<lparr>Ok = False, ErrMsg = ''duplicate key''\<rparr>) \<and>
   producer (loop_entry (example_env [] (Some ''read failed'') rejecting) example_opts ''local'' ''oplog.rs'')
     = Reading \<and>
   tail_items (loop_entry (example_env [] (Some ''read failed'') rejecting) example_opts ''local'' ''oplog.rs'')
     = [] \<and>
   loop_step rejecting ProducerNext
     (loop_entry (example_env [] (Some ''read failed'') rejecting) example_opts ''local'' ''oplog.rs'')
     = Streaming ((loop_entry (example_env [] (Some ''read failed'') rejecting) example_opts ''local'' ''oplog.rs'')
         \<lparr>producer := Stopped (Some ''read failed'')\<rparr>) \<and>
   run_loop rejecting example_schedule
     ((loop_entry (example_env [] (Some ''read failed'') rejecting) example_opts ''local'' ''oplog.rs'')
         \<lparr>producer := Stopped (Some ''read failed'')\<rparr>)
     = Streaming ((loop_entry (example_env [] (Some ''read failed'') rejecting) example_opts ''local'' ''oplog.rs'')
         \<lparr>producer := Stopped (Some ''read failed'')\<rparr>)"
proof -
  let ?E = "example_env plain_log None rejecting"
  let ?p = "loop_entry ?E example_opts ''local'' ''oplog.rs''"
  let ?s = "loop_entry (example_env [] (Some ''read failed'') rejecting) example_opts ''local'' ''oplog.rs''"
  let ?t = "?s\<lparr>producer := Stopped (Some ''read failed'')\<rparr>"
  have r: "run_loop rejecting [ProducerNext, Handoff, Tick] ?p
     = Returned (Some (ApplyServerError ''duplicate key''))
         (state_of (run_loop rejecting [ProducerNext, Handoff, Tick] ?p))"
    by (simp add: run_eval)
  have l: "last (effects (state_of (run_loop rejecting [ProducerNext, Handoff, Tick] ?p)))
     = ApplyReturn (Reply \<lparr>Ok = False, ErrMsg = ''duplicate key''\<rparr>)"
    by (simp add: run_eval)
  have h2: "producer ?s = Reading \<and> tail_items ?s = []"
    by (simp add: cursor_items_def example_env_def)
  have e2: "tail_err ?s = Some ''read failed''"
    by (simp add: loop_entry_def example_env_def)
  have h3: "producer ?t = Stopped (Some ''read failed'') \<and> opsToApply ?t = []"
    by simp
  from no_success_exit[of ?E example_opts example_schedule rejecting "[ProducerNext, Handoff, Tick]" ?p "None"]
       no_success_exit[of ?E example_opts example_schedule rejecting example_schedule ?s "None"]
       no_success_exit[of ?E example_opts example_schedule rejecting example_schedule ?t "Some ''read failed''"]
       r l h2 e2 h3
  show ?thesis by simp
qed

text \<open>
  C9 as the spec states it fails: the destination rejects the first batch, \<open>Run\<close> returns,
  and the buffer still holds the entry of the batch it sent.
\<close>

theorem buffer_cleared_after_every_flush_counterexample:
  "Run (example_env plain_log None rejecting) example_opts [ProducerNext, Handoff, Tick]
     = Returned (Some (ApplyServerError ''duplicate key''))
         (state_of (Run (example_env plain_log None rejecting) example_opts
            [ProducerNext, Handoff, Tick])) \<and>
   apply_calls (effects (state_of (Run (example_env plain_log None rejecting) example_opts
      [ProducerNext, Handoff, Tick]))) = [(TimerTrigger, [example_entry 1700000050 ''i''])] \<and>
   opsToApply (state_of (Run (example_env plain_log None rejecting) example_opts
      [ProducerNext, Handoff, Tick])) = [example_entry 1700000050 ''i''] \<and>
   length (opsToApply (state_of (Run (example_env plain_log None rejecting) example_opts
      [ProducerNext, Handoff, Tick]))) \<noteq> 0"
  by (simp add: run_eval)

text \<open>
  C9, as the code has it. A step of the loop that issued an apply call ends in one of two
  ways: the call succeeded and the buffer is empty, or the call failed and \<open>Run\<close> returns
  with the buffer still holding the batch it sent.
\<close>

theorem buffer_cleared_after_successful_flush:
  assumes "loop_step d ev s = out"
    and "apply_calls (effects (state_of out)) \<noteq> apply_calls (effects s)"
  shows "(\<forall>s'. out = Streaming s' \<longrightarrow> opsToApply s' = []) \<and>
         (\<forall>e s'. out = Returned e s' \<longrightarrow>
            opsToApply s' \<noteq> [] \<and>
            (\<exists>t. apply_calls (effects s') = apply_calls (effects s) @ [(t, opsToApply s')]))"
  using assms(1)
proof (cases rule: loop_step_elim)
  case TimerFlush
  then show ?thesis
    by (auto simp: flush_eq Let_def apply_calls_append split: if_splits)
next
  case (SizeFlush x)
  then show ?thesis
    by (auto simp: flush_eq Let_def apply_calls_append split: if_splits)
qed (use assms(2) in simp_all)

theorem buffer_cleared_after_successful_flush_witness:
  "loop_step accepting Tick
     ((loop_entry (example_env plain_log None accepting) example_opts ''local'' ''oplog.rs'')
        \<lparr>opsToApply := [example_entry 1700000050 ''i'']\<rparr>)
   = Streaming
     ((loop_entry (example_env plain_log None accepting) example_opts ''local'' ''oplog.rs'')
        \<lparr>effects := effects (loop_entry (example_env plain_log None accepting) example_opts ''local'' ''oplog.rs'')
            @ [ApplyCall TimerTrigger [example_entry 1700000050 ''i''],
               ApplyReturn (Reply \<lparr>Ok = True, ErrMsg = []\<rparr>)]\<rparr>) \<and>
   opsToApply (state_of (loop_step accepting Tick
     ((loop_entry (example_env plain_log None accepting) example_opts ''local'' ''oplog.rs'')
        \<lparr>opsToApply := [example_entry 1700000050 ''i'']\<rparr>))) = [] \<and>
   (\<exists>e s'. loop_step rejecting Tick
     ((loop_entry (example_env plain_log None rejecting) example_opts ''local'' ''oplog.rs'')
        \<lparr>opsToApply := [example_entry 1700000050 ''i'']\<rparr>) = Returned e s' \<and>
      opsToApply s' = [example_entry 1700000050 ''i''])"
proof -
  let ?s = "(loop_entry (example_env plain_log None accepting) example_opts ''local'' ''oplog.rs'')
        \<lparr>opsToApply := [example_entry 1700000050 ''i'']\<rparr>"
  let ?r = "(loop_entry (example_env plain_log None rejecting) example_opts ''local'' ''oplog.rs'')
        \<lparr>opsToApply := [example_entry 1700000050 ''i'']\<rparr>"
  have ok: "loop_step accepting Tick ?s
   = Streaming
     ((loop_entry (example_env plain_log None accepting) example_opts ''local'' ''oplog.rs'')
        \<lparr>effects := effects (loop_entry (example_env plain_log None accepting) example_opts ''local'' ''oplog.rs'')
            @ [ApplyCall TimerTrigger [example_entry 1700000050 ''i''],
               ApplyReturn (Reply \<lparr>Ok = True, ErrMsg = []\<rparr>)]\<rparr>)"
    by (simp add: flush_eq Let_def accepting_def loop_entry_def)
  have h1: "apply_calls (effects (state_of (loop_step accepting Tick ?s))) \<noteq> apply_calls (effects ?s)"
    by (simp add: flush_eq Let_def accepting_def apply_calls_append)
  have bad: "loop_step rejecting Tick ?r = Returned (Some (ApplyServerError ''duplicate key''))
      (state_of (loop_step rejecting Tick ?r))"
    by (simp add: flush_eq Let_def rejecting_def)
  have h2: "apply_calls (effects (state_of (loop_step rejecting Tick ?r))) \<noteq> apply_calls (effects ?r)"
    by (simp add: flush_eq Let_def rejecting_def apply_calls_append)
  have b2: "opsToApply (state_of (loop_step rejecting Tick ?r)) = [example_entry 1700000050 ''i'']"
    by (simp add: flush_eq Let_def rejecting_def)
  from buffer_cleared_after_successful_flush[OF refl h1]
       buffer_cleared_after_successful_flush[OF refl h2] ok bad b2
  show ?thesis by (metis state_of.simps(2))
qed

text \<open>
  C10. The goroutine compares the operation code with \<open>n\<close> and nothing else. An entry
  with that code is dropped. An entry with any other code is the very value the goroutine
  goes on to send, and after the hand-off and the next timer tick an apply call has been
  issued whose batch is the buffer with that entry, unchanged, at its end.
\<close>

theorem only_noop_code_is_filtered:
  assumes "producer s = Reading" and "tail_items s = e # rest"
  shows "(Operation e = ''n'' \<longrightarrow> producer_next s = s\<lparr>tail_items := rest\<rparr>) \<and>
         (Operation e \<noteq> ''n'' \<longrightarrow>
            producer_next s = s\<lparr>tail_items := rest, producer := Sending e\<rparr> \<and>
            (\<exists>t. (t, opsToApply s @ [e]) \<in>
               set (apply_calls (effects (state_of (run_loop d [ProducerNext, Handoff, Tick] s))))))"
proof (cases "Operation e = ''n''")
  case True
  with assms show ?thesis by (simp add: producer_next_def)
next
  case False
  let ?s1 = "s\<lparr>tail_items := rest, producer := Sending e\<rparr>"
  let ?s2 = "received e ?s1"
  from assms False have p: "producer_next s = ?s1" by (simp add: producer_next_def)
  have "\<exists>t. (t, opsToApply s @ [e]) \<in>
      set (apply_calls (effects (state_of (run_loop d [Handoff, Tick] ?s1))))"
  proof (cases "maxSize \<le> length (opsToApply s) + 1")
    case True
    then have h: "loop_step d Handoff ?s1 = flush d SizeTrigger ?s2"
      by (simp add: received_def Let_def)
    have "(SizeTrigger, opsToApply s @ [e]) \<in>
        set (apply_calls (effects (state_of (flush d SizeTrigger ?s2))))"
      by (simp add: flush_effects apply_calls_append received_def)
    then have "(SizeTrigger, opsToApply s @ [e]) \<in>
        set (apply_calls (effects (state_of (run_loop d [Handoff, Tick] ?s1))))"
      unfolding run_loop.simps h
      by (cases "flush d SizeTrigger ?s2")
         (auto simp: flush_eq Let_def apply_calls_append split: if_splits)
    then show ?thesis ..
  next
    case False
    then have h: "loop_step d Handoff ?s1 = Streaming ?s2"
      by (simp add: received_def Let_def)
    have t: "loop_step d Tick ?s2 = flush d TimerTrigger ?s2"
      by (simp add: received_def)
    have "(TimerTrigger, opsToApply s @ [e]) \<in>
        set (apply_calls (effects (state_of (flush d TimerTrigger ?s2))))"
      by (simp add: flush_effects apply_calls_append received_def)
    then have "(TimerTrigger, opsToApply s @ [e]) \<in>
        set (apply_calls (effects (state_of (run_loop d [Handoff, Tick] ?s1))))"
      unfolding run_loop.simps h t
      by (cases "flush d TimerTrigger ?s2") simp_all
    then show ?thesis ..
  qed
  with p False show ?thesis by simp
qed

theorem only_noop_code_is_filtered_witness:
  "producer_next ((loop_entry (example_env [] None accepting) example_opts ''local'' ''oplog.rs'')
       \<lparr>tail_items := [example_entry 1700000060 ''n'']\<rparr>)
     = (loop_entry (example_env [] None accepting) example_opts ''local'' ''oplog.rs'') \<and>
   producer_next ((loop_entry (example_env [] None accepting) example_opts ''local'' ''oplog.rs'')
       \<lparr>tail_items := [example_entry 1700000060 ''xyz'']\<rparr>)
     = (loop_entry (example_env [] None accepting) example_opts ''local'' ''oplog.rs'')
         \<lparr>producer := Sending (example_entry 1700000060 ''xyz'')\<rparr> \<and>
   apply_calls (effects (state_of (run_loop accepting [ProducerNext, Handoff, Tick]
     ((loop_entry (example_env [] None accepting) example_opts ''local'' ''oplog.rs'')
       \<lparr>tail_items := [example_entry 1700000060 ''xyz'']\<rparr>))))
     = [(TimerTrigger, [example_entry 1700000060 ''xyz''])]"
proof -
  let ?s0 = "loop_entry (example_env [] None accepting) example_opts ''local'' ''oplog.rs''"
  let ?n = "?s0\<lparr>tail_items := [example_entry 1700000060 ''n'']\<rparr>"
  let ?x = "?s0\<lparr>tail_items := [example_entry 1700000060 ''xyz'']\<rparr>"
  have c: "cursor_items (example_env [] None accepting) example_opts = []"
    by (simp add: cursor_items_def example_env_def)
  have z: "?s0\<lparr>tail_items := []\<rparr> = ?s0"
    by (simp add: loop_entry_def c)
  have hn: "producer ?n = Reading" "tail_items ?n = example_entry 1700000060 ''n'' # []"
    and on: "Operation (example_entry 1700000060 ''n'') = ''n''"
    by (simp_all add: example_entry_def)
  have hx: "producer ?x = Reading" "tail_items ?x = example_entry 1700000060 ''xyz'' # []"
    and ox: "Operation (example_entry 1700000060 ''xyz'') \<noteq> ''n''"
    by (simp_all add: example_entry_def)
  have a: "apply_calls (effects (state_of (run_loop accepting [ProducerNext, Handoff, Tick] ?x)))
     = [(TimerTrigger, [example_entry 1700000060 ''xyz''])]"
    by (simp add: run_eval apply_calls_append)
  from only_noop_code_is_filtered[OF hn, of accepting]
       only_noop_code_is_filtered[OF hx, of accepting] on ox z a
  show ?thesis by simp
qed

end
